theory Spec2Isabelle
  imports Main "HOL-Library.Word"
begin

unbundle bit_operations_syntax

section \<open>Data of the Discord library, as server.go uses it\<close>

text \<open>
  Snowflakes (guild, channel, message, user and tag identifiers) are unsigned 64-bit
  numbers. The server only compares them, so they are natural numbers here, and
  \<open>ParseSnowflake\<close> is where the 64-bit bound is enforced. The zero value of a
  \<open>discord.MessageID\<close> is 0: it is what \<open>var cur discord.MessageID\<close> holds when the
  request names no cursor.
\<close>

type_synonym Snowflake = nat

record User =
  User_ID :: Snowflake
  User_Username :: string

record discord_Message =
  Message_ID :: Snowflake
  Message_ChannelID :: Snowflake
  Message_GuildID :: Snowflake
  Message_Author :: User
  Message_Content :: string
  Message_Edited :: bool

datatype ChannelType = GuildText | GuildPublicThread | GuildForum | GuildOther nat

record Tag =
  Tag_ID :: Snowflake
  Tag_Name :: string

record Channel =
  Channel_ID :: Snowflake
  Channel_GuildID :: Snowflake
  Channel_ParentID :: Snowflake
  Channel_Type :: ChannelType
  Channel_NSFW :: bool
  Channel_Flags :: "64 word"
  Channel_LastMessageID :: Snowflake
  Channel_AppliedTags :: "Snowflake list"
  Channel_AvailableTags :: "Tag list"

record Guild =
  Guild_ID :: Snowflake
  Guild_Name :: string

text \<open>\<open>discord.PinnedThread\<close> is \<open>1 << 1\<close>.\<close>

definition PinnedThread :: "64 word" where
  "PinnedThread = push_bit 1 1"

text \<open>
  \<open>Snowflake.Time\<close>: the identifier shifted right by 22 bits is the creation time in
  milliseconds since the Discord epoch; \<open>After\<close> compares two such times.
\<close>

definition Snowflake_Time :: "Snowflake \<Rightarrow> nat" where
  "Snowflake_Time sf = drop_bit 22 sf"

definition Time_After :: "nat \<Rightarrow> nat \<Rightarrow> bool" where
  "Time_After t u = (u < t)"

section \<open>Go errors and \<open>discordStatusIs\<close>\<close>

text \<open>
  An error value is a chain: \<open>fmt.Errorf\<close> with \<open>%w\<close> wraps an error under a message,
  an \<open>*httputil.HTTPError\<close> carries the status of the upstream response and wraps
  nothing, every other error is a message.
\<close>

datatype go_error =
    HTTPError int
  | Errorf string go_error
  | ErrorString string

text \<open>\<open>errors.As(err, &httperr)\<close>: the first \<open>*httputil.HTTPError\<close> of the chain.\<close>

fun errors_As_HTTPError :: "go_error \<Rightarrow> int option" where
  "errors_As_HTTPError (HTTPError st) = Some st"
| "errors_As_HTTPError (Errorf msg e) = errors_As_HTTPError e"
| "errors_As_HTTPError (ErrorString msg) = None"

definition discordStatusIs :: "go_error \<Rightarrow> int \<Rightarrow> bool" where
  "discordStatusIs err status =
     (case errors_As_HTTPError err of
        None \<Rightarrow> False
      | Some httperr_Status \<Rightarrow> httperr_Status = status)"

abbreviation StatusBadRequest :: int where "StatusBadRequest \<equiv> 400"
abbreviation StatusForbidden :: int where "StatusForbidden \<equiv> 403"
abbreviation StatusNotFound :: int where "StatusNotFound \<equiv> 404"
abbreviation StatusInternalServerError :: int where "StatusInternalServerError \<equiv> 500"

section \<open>Parsing of request parameters\<close>

text \<open>
  \<open>strconv\<close> in base 10: a string of ASCII digits (the bytes 48 to 57), for
  \<open>Atoi\<close> after an optional sign.
  The empty string and every other character is a syntax error, a value outside the
  integer type a range error. Go's \<open>int\<close> has 64 bits on the platforms the server is
  built for.
\<close>

definition digit_of :: "char \<Rightarrow> nat option" where
  "digit_of c =
     (if 48 \<le> (of_char c :: nat) \<and> (of_char c :: nat) \<le> 57
      then Some (of_char c - 48)
      else None)"

fun parse_digits :: "nat \<Rightarrow> string \<Rightarrow> nat option" where
  "parse_digits acc [] = Some acc"
| "parse_digits acc (c # cs) =
     (case digit_of c of
        None \<Rightarrow> None
      | Some v \<Rightarrow> parse_digits (acc * 10 + v) cs)"

definition ErrSyntax :: go_error where
  "ErrSyntax = ErrorString ''invalid syntax''"

definition ErrRange :: go_error where
  "ErrRange = ErrorString ''value out of range''"

definition ParseUint :: "string \<Rightarrow> go_error + nat" where
  "ParseUint s =
     (if s = [] then Inl ErrSyntax
      else case parse_digits 0 s of
        None \<Rightarrow> Inl ErrSyntax
      | Some n \<Rightarrow> if n < 2 ^ 64 then Inr n else Inl ErrRange)"

text \<open>\<open>discord.ParseSnowflake\<close>: \<open>"null"\<close> is the null snowflake (all bits set).\<close>

definition NullSnowflake :: Snowflake where
  "NullSnowflake = 2 ^ 64 - 1"

definition ParseSnowflake :: "string \<Rightarrow> go_error + Snowflake" where
  "ParseSnowflake sf = (if sf = ''null'' then Inr NullSnowflake else ParseUint sf)"

definition Atoi :: "string \<Rightarrow> go_error + int" where
  "Atoi s =
     (let (neg, ds) =
        (case s of
           [] \<Rightarrow> (False, s)
         | c # cs \<Rightarrow>
             if c = CHR ''-'' then (True, cs)
             else if c = CHR ''+'' then (False, cs)
             else (False, s))
      in if ds = [] then Inl ErrSyntax
         else case parse_digits 0 ds of
           None \<Rightarrow> Inl ErrSyntax
         | Some n \<Rightarrow>
             (let v = (if neg then - int n else int n)
              in if - (2 ^ 63) \<le> v \<and> v < 2 ^ 63 then Inr v else Inl ErrRange))"

text \<open>
  Arithmetic on \<open>int\<close> wraps around in two's complement: \<open>int64\<close> is the value a
  64-bit register holds after the exact result.
\<close>

definition int64 :: "int \<Rightarrow> int" where
  "int64 x = (x + 2 ^ 63) mod 2 ^ 64 - 2 ^ 63"

text \<open>
  A slice expression \<open>xs[lo:hi]\<close> panics unless \<open>0 \<le> lo \<le> hi \<le> len(xs)\<close> (no slice
  here has spare capacity that a claim depends on); \<open>xs[lo:]\<close> is \<open>xs[lo:len(xs)]\<close>.
  \<open>None\<close> is the run-time panic.
\<close>

definition slice :: "'a list \<Rightarrow> int \<Rightarrow> int \<Rightarrow> 'a list option" where
  "slice xs lo hi =
     (if 0 \<le> lo \<and> lo \<le> hi \<and> hi \<le> int (length xs)
      then Some (take (nat (hi - lo)) (drop (nat lo) xs))
      else None)"

section \<open>Requests, responses and the collaborators\<close>

text \<open>
  What a handler reads of a request: the URL parameters of the route (the empty string
  when the route has none, as \<open>chi.URLParam\<close> gives it) and the two query values of
  \<open>getPost\<close>.
\<close>

record request =
  param_guildID :: string
  param_forumID :: string
  param_postID :: string
  param_page :: string
  query_after :: string
  query_before :: string

text \<open>
  What a handler does with the response: \<open>displayErr\<close> with a status and an error
  (\<open>None\<close> is \<open>nil\<close>), \<open>executeTemplate\<close> with a template name and the context handed
  to the rendering layer, or a run-time panic.
\<close>

datatype 'c outcome =
    DisplayErr int "go_error option"
  | ExecuteTemplate string 'c
  | Panic

text \<open>The calls a handler makes to the Discord state and the REST client, in order.\<close>

datatype call =
    CallCabinetGuild Snowflake
  | CallCabinetChannel Snowflake
  | CallStateChannel Snowflake
  | CallChannels Snowflake
  | CallFetchHistory Snowflake Snowflake bool nat
  | CallFetchMembers Snowflake "Snowflake list"

record MemberRecord =
  Member_UserID :: Snowflake
  Member_Name :: string
  Member_Avatar :: string

record Author =
  Author_ID :: Snowflake
  Author_Name :: string

section \<open>The server\<close>

text \<open>
  Modelled from the spec: the type \<open>messageCache\<close> is defined outside server.go.
  After the spec's ChannelStore, a cache holds per channel the ordered sequence of its
  cached messages, keyed by identifier (ascending, unique), and the channels whose
  backfill is Complete. The attribute \<open>lastActivityAt\<close> is a clock reading that no
  operation below reads; it is left out.
\<close>

record messageCache =
  store :: "Snowflake \<Rightarrow> discord_Message list"
  complete :: "Snowflake set"

text \<open>
  The fields of \<open>struct server\<close> that the handlers read or write. The mutexes, the
  router, the sitemap and the buffer pool carry no state of a request. A Go map with
  \<open>struct{}\<close> values is a set of its keys. \<open>memberRecords\<close> stands for the members
  the Discord state holds, per guild and user.
\<close>

record server =
  messageCache :: messageCache
  fetchedInactive :: "Snowflake set"
  membersGot :: "Snowflake set"
  memberRecords :: "Snowflake \<times> Snowflake \<Rightarrow> MemberRecord option"
  URL :: string

text \<open>
  What the handlers call and server.go does not define is a parameter: the answers of
  the Discord state (\<open>s.discord.Cabinet.Guild\<close>, \<open>s.discord.Cabinet.Channel\<close>,
  \<open>s.discord.Channel\<close>), the methods \<open>s.channels\<close>, \<open>s.message\<close> and \<open>s.author\<close>
  of the server, the methods \<open>MessagesAfter\<close> and \<open>MessagesBefore\<close> of the message
  cache, and \<open>s.ensureMembers\<close>. The last three read and change the server: they take
  it and return it, with the calls they made to the REST client. The result of the
  two cache methods is (messages, hasbefore, hasafter, error). \<open>'r\<close> is the type
  \<open>Message\<close> that \<open>s.message\<close> returns.
\<close>

record 'r collab =
  Cabinet_Guild :: "Snowflake \<Rightarrow> go_error + Guild"
  Cabinet_Channel :: "Snowflake \<Rightarrow> go_error + Channel"
  State_Channel :: "Snowflake \<Rightarrow> go_error + Channel"
  channels :: "Snowflake \<Rightarrow> go_error + Channel list"
  message :: "discord_Message \<Rightarrow> 'r"
  author :: "discord_Message \<Rightarrow> Author"
  MessagesAfter ::
    "server \<Rightarrow> Snowflake \<Rightarrow> Snowflake \<Rightarrow> nat \<Rightarrow>
       server \<times> call list \<times> discord_Message list \<times> bool \<times> bool \<times> go_error option"
  MessagesBefore ::
    "server \<Rightarrow> Snowflake \<Rightarrow> Snowflake \<Rightarrow> nat \<Rightarrow>
       server \<times> call list \<times> discord_Message list \<times> bool \<times> bool \<times> go_error option"
  ensureMembers ::
    "server \<Rightarrow> Channel \<Rightarrow> discord_Message list \<Rightarrow> server \<times> call list \<times> go_error option"

section \<open>The lookups of a request: \<open>guildFromReq\<close>, \<open>forumFromReq\<close>, \<open>postFromReq\<close>\<close>

text \<open>
  Each returns the calls it made and either the status and error it gave to
  \<open>displayErr\<close> (the handler then returns) or the object it found.
\<close>

type_synonym 'a lookup = "call list \<times> (int \<times> go_error option + 'a)"

definition guildFromReq :: "'r collab \<Rightarrow> request \<Rightarrow> Guild lookup" where
  "guildFromReq d r =
     (case ParseSnowflake (param_guildID r) of
        Inl err \<Rightarrow> ([], Inl (StatusBadRequest, Some err))
      | Inr guildID \<Rightarrow>
          (case Cabinet_Guild d guildID of
             Inl err \<Rightarrow>
               ([CallCabinetGuild guildID],
                Inl (if discordStatusIs err StatusNotFound
                     then (StatusNotFound, None)
                     else (StatusInternalServerError,
                             Some (Errorf ''fetching guild: %w'' err))))
           | Inr guild \<Rightarrow> ([CallCabinetGuild guildID], Inr guild)))"

definition forumFromReq :: "'r collab \<Rightarrow> request \<Rightarrow> Channel lookup" where
  "forumFromReq d r =
     (case ParseSnowflake (param_forumID r) of
        Inl err \<Rightarrow> ([], Inl (StatusBadRequest, Some err))
      | Inr forumID \<Rightarrow>
          (case Cabinet_Channel d forumID of
             Inl err \<Rightarrow>
               ([CallCabinetChannel forumID],
                Inl (if discordStatusIs err StatusNotFound
                     then (StatusNotFound, None)
                     else (StatusInternalServerError,
                             Some (Errorf ''fetching forum: %w'' err))))
           | Inr forum \<Rightarrow>
               if Channel_NSFW forum
               then ([CallCabinetChannel forumID],
                     Inl (StatusForbidden, Some (ErrorString ''NSFW content is not served'')))
               else ([CallCabinetChannel forumID], Inr forum)))"

definition postFromReq :: "'r collab \<Rightarrow> request \<Rightarrow> Channel lookup" where
  "postFromReq d r =
     (case ParseSnowflake (param_postID r) of
        Inl err \<Rightarrow> ([], Inl (StatusBadRequest, Some err))
      | Inr postID \<Rightarrow>
          (case State_Channel d postID of
             Inl err \<Rightarrow>
               ([CallStateChannel postID],
                Inl (if discordStatusIs err StatusNotFound
                     then (StatusNotFound, None)
                     else (StatusInternalServerError,
                             Some (Errorf ''fetching post: %w'' err))))
           | Inr post \<Rightarrow> ([CallStateChannel postID], Inr post)))"

section \<open>The forum page: \<open>getForum\<close>\<close>

record Post =
  Post_Channel :: Channel
  Post_Tags :: "Tag list"

record forum_ctx =
  fctx_Guild :: Guild
  fctx_Forum :: Channel
  fctx_Posts :: "Post list"
  fctx_Prev :: int
  fctx_Next :: int
  fctx_URL :: string

text \<open>Lines 277 to 284: the post of a thread, with the forum's tags the thread applies.\<close>

definition post_of_thread :: "Channel \<Rightarrow> Channel \<Rightarrow> Post" where
  "post_of_thread forum thread =
     \<lparr>Post_Channel = thread,
      Post_Tags =
        foldl (\<lambda>tags tag.
                 foldl (\<lambda>tags availtag.
                          if Tag_ID availtag = tag then tags @ [availtag] else tags)
                       tags (Channel_AvailableTags forum))
              [] (Channel_AppliedTags thread)\<rparr>"

text \<open>Lines 271 to 286: the loop over the guild's channels.\<close>

definition collectPosts :: "Channel \<Rightarrow> Channel list \<Rightarrow> Post list" where
  "collectPosts forum chans =
     foldl (\<lambda>posts thread.
              if Channel_ParentID thread \<noteq> Channel_ID forum \<or>
                 Channel_Type thread \<noteq> GuildPublicThread
              then posts
              else posts @ [post_of_thread forum thread])
           [] chans"

text \<open>
  Lines 288 to 291: the comparison handed to \<open>sort.SliceStable\<close>. In Go \<open>&\<close> binds
  tighter than \<open>^\<close>, so the test is \<open>a ^ (b & PinnedThread) != 0\<close>.
\<close>

definition posts_less :: "Post \<Rightarrow> Post \<Rightarrow> bool" where
  "posts_less p q =
     (if Channel_Flags (Post_Channel p) XOR
           (Channel_Flags (Post_Channel q) AND PinnedThread) \<noteq> 0
      then Channel_Flags (Post_Channel p) AND PinnedThread \<noteq> 0
      else Time_After (Snowflake_Time (Channel_LastMessageID (Post_Channel p)))
                      (Snowflake_Time (Channel_LastMessageID (Post_Channel q))))"

text \<open>\<open>sort.SliceStable\<close>: a stable sort, here by insertion.\<close>

fun insert_stable :: "('a \<Rightarrow> 'a \<Rightarrow> bool) \<Rightarrow> 'a \<Rightarrow> 'a list \<Rightarrow> 'a list" where
  "insert_stable lt x [] = [x]"
| "insert_stable lt x (y # ys) =
     (if lt y x then y # insert_stable lt x ys else x # y # ys)"

definition SliceStable :: "('a \<Rightarrow> 'a \<Rightarrow> bool) \<Rightarrow> 'a list \<Rightarrow> 'a list" where
  "SliceStable lt xs = foldr (insert_stable lt) xs []"

text \<open>
  \<open>getForum\<close>. The sort of line 287 is applied to \<open>ctx.Posts\<close>, which line 308 then
  overwrites. The products \<open>page*25\<close> and \<open>(page-1)*25\<close> are 64-bit products.
\<close>

definition getForum :: "'r collab \<Rightarrow> server \<Rightarrow> request \<Rightarrow> forum_ctx outcome \<times> call list" where
  "getForum d s r =
     (case guildFromReq d r of
        (c1, Inl (status, err)) \<Rightarrow> (DisplayErr status err, c1)
      | (c1, Inr guild) \<Rightarrow>
     (case forumFromReq d r of
        (c2, Inl (status, err)) \<Rightarrow> (DisplayErr status err, c1 @ c2)
      | (c2, Inr forum) \<Rightarrow>
     (let ctx = \<lparr>fctx_Guild = guild, fctx_Forum = forum, fctx_Posts = [],
                 fctx_Prev = 0, fctx_Next = 0, fctx_URL = URL s\<rparr>;
          cs = c1 @ c2 @ [CallChannels (Guild_ID guild)]
      in case channels d (Guild_ID guild) of
           Inl err \<Rightarrow>
             (DisplayErr StatusInternalServerError
                (Some (Errorf ''fetching guild threads: %w'' err)), cs)
         | Inr chans \<Rightarrow>
             (let posts = collectPosts forum chans;
                  ctx = ctx\<lparr>fctx_Posts := SliceStable posts_less (fctx_Posts ctx)\<rparr>;
                  page = (case Atoi (param_page r) of
                            Inl err \<Rightarrow> 1
                          | Inr page \<Rightarrow> if page < 1 then 1 else page);
                  ctx = (if page > 1 then ctx\<lparr>fctx_Prev := page - 1\<rparr> else ctx)
              in if int (length posts) > int64 (page * 25)
                 then (case slice posts (int64 ((page - 1) * 25)) (int64 (page * 25)) of
                         None \<Rightarrow> (Panic, cs)
                       | Some posts' \<Rightarrow>
                           (ExecuteTemplate ''forum.gohtml''
                              (ctx\<lparr>fctx_Next := int64 (page + 1), fctx_Posts := posts'\<rparr>),
                            cs))
                 else if int (length posts) \<ge> int64 ((page - 1) * 25)
                 then (case slice posts (int64 ((page - 1) * 25)) (int (length posts)) of
                         None \<Rightarrow> (Panic, cs)
                       | Some posts' \<Rightarrow>
                           (ExecuteTemplate ''forum.gohtml''
                              (ctx\<lparr>fctx_Posts := posts'\<rparr>), cs))
                 else (ExecuteTemplate ''forum.gohtml'' (ctx\<lparr>fctx_Posts := []\<rparr>), cs)))))"

section \<open>The post page: \<open>getPost\<close>\<close>

record 'r MessageGroup =
  Group_Author :: Author
  Group_Messages :: "'r list"

record 'r post_ctx =
  pctx_Guild :: Guild
  pctx_Forum :: Channel
  pctx_Post :: Channel
  pctx_Prev :: Snowflake
  pctx_Next :: Snowflake
  pctx_MessageGroups :: "'r MessageGroup list"
  pctx_URL :: string

text \<open>
  Lines 338 to 355: the cursor of the request and the direction (\<open>asc\<close>); the error is
  that of \<open>ParseSnowflake\<close>.
\<close>

definition requestCursor :: "request \<Rightarrow> go_error + Snowflake \<times> bool" where
  "requestCursor r =
     (let (curstr, asc) =
        (if query_after r \<noteq> [] then (query_after r, True)
         else if query_before r \<noteq> [] then (query_before r, False)
         else ([], True))
      in if curstr \<noteq> []
         then (case ParseSnowflake curstr of
                 Inl err \<Rightarrow> Inl err
               | Inr sf \<Rightarrow> Inr (sf, asc))
         else Inr (0, asc))"

text \<open>
  Lines 364 to 369: the cursors \<open>(Prev, Next)\<close> of the page. \<open>msgs[len(msgs)-1]\<close> is
  read under the test \<open>len(msgs) > 0\<close>; \<open>msgs[0]\<close> is read under \<open>hasbefore\<close> alone,
  and panics on an empty slice (\<open>None\<close>).
\<close>

definition page_cursors ::
  "discord_Message list \<Rightarrow> bool \<Rightarrow> bool \<Rightarrow> (Snowflake \<times> Snowflake) option" where
  "page_cursors msgs hasbefore hasafter =
     (let next = (if hasafter \<and> length msgs > 0
                  then Message_ID (msgs ! (length msgs - 1)) else 0)
      in if hasbefore
         then (if 0 < length msgs then Some (Message_ID (msgs ! 0), next) else None)
         else Some (0, next))"

text \<open>
  Lines 384 to 397: the loop that builds the message groups. The state of the loop is
  the slice \<open>msgrps\<close> and the index \<open>i\<close> of its last group (\<open>-1\<close> at the start).
\<close>

definition group_step ::
  "(discord_Message \<Rightarrow> 'r) \<Rightarrow> (discord_Message \<Rightarrow> Author) \<Rightarrow> Snowflake \<Rightarrow>
     'r MessageGroup list \<times> int \<Rightarrow> discord_Message \<Rightarrow> 'r MessageGroup list \<times> int" where
  "group_step s_message s_author guildID st m0 =
     (let (msgrps, i) = st;
          m = m0\<lparr>Message_GuildID := guildID\<rparr>;
          msg = s_message m
      in if i = - 1 \<or> Author_ID (Group_Author (msgrps ! nat i)) \<noteq> User_ID (Message_Author m)
         then (msgrps @ [\<lparr>Group_Author = s_author m, Group_Messages = [msg]\<rparr>], i + 1)
         else (msgrps[nat i := (msgrps ! nat i)
                 \<lparr>Group_Messages := Group_Messages (msgrps ! nat i) @ [msg]\<rparr>], i))"

definition groupMessages ::
  "(discord_Message \<Rightarrow> 'r) \<Rightarrow> (discord_Message \<Rightarrow> Author) \<Rightarrow> Snowflake \<Rightarrow>
     discord_Message list \<Rightarrow> 'r MessageGroup list" where
  "groupMessages s_message s_author guildID msgs =
     fst (foldl (group_step s_message s_author guildID) ([], - 1) msgs)"

text \<open>
  \<open>getPost\<close>: the response, the server after the request, and the calls made.
\<close>

definition getPost ::
  "'r collab \<Rightarrow> server \<Rightarrow> request \<Rightarrow> 'r post_ctx outcome \<times> server \<times> call list" where
  "getPost d s r =
     (case guildFromReq d r of
        (c1, Inl (status, err)) \<Rightarrow> (DisplayErr status err, s, c1)
      | (c1, Inr guild) \<Rightarrow>
     (case forumFromReq d r of
        (c2, Inl (status, err)) \<Rightarrow> (DisplayErr status err, s, c1 @ c2)
      | (c2, Inr forum) \<Rightarrow>
     (case postFromReq d r of
        (c3, Inl (status, err)) \<Rightarrow> (DisplayErr status err, s, c1 @ c2 @ c3)
      | (c3, Inr post) \<Rightarrow>
     (case requestCursor r of
        Inl err \<Rightarrow>
          (DisplayErr StatusBadRequest (Some (Errorf ''invalid snowflake: %w'' err)),
           s, c1 @ c2 @ c3)
      | Inr (cur, asc) \<Rightarrow>
     (case (if asc then MessagesAfter d s (Channel_ID post) cur 25
            else MessagesBefore d s (Channel_ID post) cur 25) of
        (s1, c4, msgs, hasbefore, hasafter, err) \<Rightarrow>
     (case page_cursors msgs hasbefore hasafter of
        None \<Rightarrow> (Panic, s1, c1 @ c2 @ c3 @ c4)
      | Some (prev, next) \<Rightarrow>
     (case err of
        Some e \<Rightarrow>
          (DisplayErr StatusInternalServerError
             (Some (Errorf ''fetching post's messages: %w'' e)),
           s1, c1 @ c2 @ c3 @ c4)
      | None \<Rightarrow>
     (case ensureMembers d s1 post msgs of
        (s2, c5, Some e) \<Rightarrow>
          (DisplayErr StatusInternalServerError
             (Some (Errorf ''fetching post's members: %w'' e)),
           s2, c1 @ c2 @ c3 @ c4 @ c5)
      | (s2, c5, None) \<Rightarrow>
          (ExecuteTemplate ''post.gohtml''
             \<lparr>pctx_Guild = guild, pctx_Forum = forum, pctx_Post = post,
              pctx_Prev = prev, pctx_Next = next,
              pctx_MessageGroups =
                groupMessages (message d) (author d) (Guild_ID guild) msgs,
              pctx_URL = URL s\<rparr>,
           s2, c1 @ c2 @ c3 @ c4 @ c5)))))))))"

section \<open>The gateway event handlers of \<open>newServer\<close>\<close>

text \<open>
  The events of the gateway, and the calls a handler makes on the message cache. A
  handler registered with \<open>AddHandler\<close> runs on the events of its parameter's type only:
  \<open>None\<close> is an event the handler is not called with.
\<close>

datatype gateway_event =
    MessageCreateEvent discord_Message
  | MessageUpdateEvent discord_Message
  | MessageDeleteEvent Snowflake Snowflake
  | OtherEvent string

datatype cache_call =
    CacheSet discord_Message bool
  | CacheRemove Snowflake Snowflake

type_synonym handler = "gateway_event \<Rightarrow> cache_call list option"

text \<open>Lines 62 to 64, 65 to 67 and 68 to 70.\<close>

definition onMessageCreate :: handler where
  "onMessageCreate ev =
     (case ev of MessageCreateEvent m \<Rightarrow> Some [CacheSet m False] | _ \<Rightarrow> None)"

definition onMessageUpdate :: handler where
  "onMessageUpdate ev =
     (case ev of MessageUpdateEvent m \<Rightarrow> Some [CacheSet m True] | _ \<Rightarrow> None)"

definition onMessageDelete :: handler where
  "onMessageDelete ev =
     (case ev of
        MessageDeleteEvent channelID messageID \<Rightarrow> Some [CacheRemove channelID messageID]
      | _ \<Rightarrow> None)"

record config =
  SiteURL :: string
  ServiceName :: string
  ServerHostedIn :: string

text \<open>
  Modelled from the spec: \<open>newMessageCache\<close>, defined outside server.go. A channel's
  entry is created on first access, so the new cache holds no message and no channel
  is Complete.
\<close>

definition newMessageCache :: messageCache where
  "newMessageCache = \<lparr>store = (\<lambda>channelID. []), complete = {}\<rparr>"

text \<open>
  \<open>newServer\<close>: the server it builds, and the handlers it registers, in order.
  \<open>fetchedInactive\<close> is made empty; \<open>membersGot\<close> is left at its zero value, the
  nil map, which holds no key.
\<close>

definition registered :: "handler list" where
  "registered = [onMessageCreate, onMessageUpdate, onMessageDelete]"

definition newServer :: "config \<Rightarrow> server \<times> handler list" where
  "newServer cfg =
     (\<lparr>messageCache = newMessageCache,
       fetchedInactive = {},
       membersGot = {},
       memberRecords = (\<lambda>k. None),
       URL = SiteURL cfg\<rparr>,
      registered)"

text \<open>The calls all registered handlers make on an event.\<close>

definition dispatch :: "handler list \<Rightarrow> gateway_event \<Rightarrow> cache_call list" where
  "dispatch hs ev = concat (map (\<lambda>h. case h ev of None \<Rightarrow> [] | Some cs \<Rightarrow> cs) hs)"

section \<open>The message cache\<close>

text \<open>
  The REST client, as the spec's external interfaces give it: the history of a channel
  before or after a cursor up to a limit, the archived status of a channel, and the
  members of a guild by user identifiers. An error of \<open>fetchMembers\<close> includes the
  expired deadline.
\<close>

record rest =
  fetchHistory :: "Snowflake \<Rightarrow> Snowflake \<Rightarrow> bool \<Rightarrow> nat \<Rightarrow> go_error + discord_Message list"
  archived :: "Snowflake \<Rightarrow> bool"
  fetchMembers :: "Snowflake \<Rightarrow> Snowflake list \<Rightarrow> go_error + MemberRecord list"

text \<open>
  Modelled from the spec: \<open>messageCache.Set\<close> and \<open>messageCache.Remove\<close>, defined outside
  server.go. After the spec's ChannelStore: the upsert puts a message at its place by
  identifier and replaces the cached message with the same identifier; an update also
  sets the edited marker, which is for display only; the removal takes the message out
  and leaves its neighbours as they are.
\<close>

fun upsert :: "discord_Message \<Rightarrow> discord_Message list \<Rightarrow> discord_Message list" where
  "upsert m [] = [m]"
| "upsert m (x # xs) =
     (if Message_ID m < Message_ID x then m # x # xs
      else if Message_ID m = Message_ID x then m # xs
      else x # upsert m xs)"

definition messageCache_Set :: "discord_Message \<Rightarrow> bool \<Rightarrow> messageCache \<Rightarrow> messageCache" where
  "messageCache_Set m edited c =
     c\<lparr>store := (store c)
         (Message_ChannelID m :=
            upsert (if edited then m\<lparr>Message_Edited := True\<rparr> else m)
                   (store c (Message_ChannelID m)))\<rparr>"

definition messageCache_Remove :: "Snowflake \<Rightarrow> Snowflake \<Rightarrow> messageCache \<Rightarrow> messageCache" where
  "messageCache_Remove channelID messageID c =
     c\<lparr>store := (store c)
         (channelID := filter (\<lambda>x. Message_ID x \<noteq> messageID) (store c channelID))\<rparr>"

text \<open>
  Modelled from the spec: the window of the ChannelStore and the flags of the
  PaginationEngine, defined outside server.go. Up to \<open>limit\<close> messages strictly after
  the cursor in ascending order, or strictly before it, taken in descending order and
  then reversed; from the oldest or the newest end when the cursor is absent (the zero
  identifier). \<open>hasBefore\<close> and \<open>hasAfter\<close> say whether cached entries exist outside
  the returned slice in each direction: before its first message, after its last one.
  An empty slice has no entry next to it, and both flags are false. The result is
  (messages, hasBefore, hasAfter).
\<close>

definition window ::
  "discord_Message list \<Rightarrow> Snowflake \<Rightarrow> bool \<Rightarrow> nat \<Rightarrow> discord_Message list \<times> bool \<times> bool" where
  "window xs cursor asc limit =
     (let msgs =
        (if asc
         then take limit (filter (\<lambda>m. cursor = 0 \<or> cursor < Message_ID m) xs)
         else rev (take limit (rev (filter (\<lambda>m. cursor = 0 \<or> Message_ID m < cursor) xs))))
      in (msgs,
          msgs \<noteq> [] \<and> filter (\<lambda>m. Message_ID m < Message_ID (hd msgs)) xs \<noteq> [],
          msgs \<noteq> [] \<and> filter (\<lambda>m. Message_ID (last msgs) < Message_ID m) xs \<noteq> []))"

text \<open>
  Modelled from the spec: the BackfillController, defined outside server.go. The state
  of a channel is Inactive once the channel is recorded in \<open>fetchedInactive\<close>, Complete
  once it is recorded as complete, Unknown otherwise. Backfilling lasts from the start
  of a fetch to its end, inside one call of \<open>backfill\<close>, which this sequential model
  runs to its end: a failed fetch records nothing, which is the return to Unknown.
\<close>

datatype BackfillState = Unknown | Backfilling | Complete | Inactive

definition backfillState :: "server \<Rightarrow> Snowflake \<Rightarrow> BackfillState" where
  "backfillState s channelID =
     (if channelID \<in> fetchedInactive s then Inactive
      else if channelID \<in> complete (messageCache s) then Complete
      else Unknown)"

text \<open>
  Modelled from the spec: the merge of fetched history into the ChannelStore (each
  fetched message is upserted), and the test that the requested window is covered by
  cached data. The spec does not say how coverage is decided; here a window is covered
  when the cache holds a full page for it.
\<close>

definition merge :: "discord_Message list \<Rightarrow> discord_Message list \<Rightarrow> discord_Message list" where
  "merge fetched xs = foldr upsert fetched xs"

definition covered :: "discord_Message list \<Rightarrow> Snowflake \<Rightarrow> bool \<Rightarrow> nat \<Rightarrow> bool" where
  "covered xs cursor asc limit = (length (fst (window xs cursor asc limit)) = limit)"

definition merged :: "server \<Rightarrow> Snowflake \<Rightarrow> discord_Message list \<Rightarrow> server" where
  "merged s channelID fetched =
     s\<lparr>messageCache := (messageCache s)
         \<lparr>store := (store (messageCache s))
            (channelID := merge fetched (store (messageCache s) channelID))\<rparr>\<rparr>"

text \<open>
  Modelled from the spec: the decision of the BackfillController, defined outside
  server.go. Inactive: never fetch. Complete: fetch the missing boundary when the
  window is not covered, and stay Complete. Unknown: fetch the page for the cursor,
  merge it, and classify the channel as Inactive when the platform reports it archived,
  as Complete otherwise. A failed fetch changes no state and is returned as the error.
\<close>

definition backfill ::
  "rest \<Rightarrow> server \<Rightarrow> Snowflake \<Rightarrow> Snowflake \<Rightarrow> bool \<Rightarrow> nat \<Rightarrow>
     server \<times> call list \<times> go_error option" where
  "backfill d s channelID cursor asc limit =
     (case backfillState s channelID of
        Inactive \<Rightarrow> (s, [], None)
      | Complete \<Rightarrow>
          if covered (store (messageCache s) channelID) cursor asc limit then (s, [], None)
          else (case fetchHistory d channelID cursor asc limit of
                  Inl err \<Rightarrow> (s, [CallFetchHistory channelID cursor asc limit], Some err)
                | Inr fetched \<Rightarrow>
                    (merged s channelID fetched,
                     [CallFetchHistory channelID cursor asc limit], None))
      | _ \<Rightarrow>
          (case fetchHistory d channelID cursor asc limit of
             Inl err \<Rightarrow> (s, [CallFetchHistory channelID cursor asc limit], Some err)
           | Inr fetched \<Rightarrow>
               (let s1 = merged s channelID fetched
                in if archived d channelID
                   then (s1\<lparr>fetchedInactive := insert channelID (fetchedInactive s1)\<rparr>,
                         [CallFetchHistory channelID cursor asc limit], None)
                   else (s1\<lparr>messageCache := (messageCache s1)
                              \<lparr>complete := insert channelID (complete (messageCache s1))\<rparr>\<rparr>,
                         [CallFetchHistory channelID cursor asc limit], None))))"

text \<open>
  Modelled from the spec: the operation \<open>page\<close> of the PaginationEngine, which is
  what \<open>MessagesAfter\<close> and \<open>MessagesBefore\<close>, defined outside server.go, do in the
  two directions. The result is the new state, the calls made, and (messages,
  hasBefore, hasAfter, error).
\<close>

definition page ::
  "rest \<Rightarrow> server \<Rightarrow> Snowflake \<Rightarrow> Snowflake \<Rightarrow> bool \<Rightarrow> nat \<Rightarrow>
     server \<times> call list \<times> discord_Message list \<times> bool \<times> bool \<times> go_error option" where
  "page d s channelID cursor asc limit =
     (case backfill d s channelID cursor asc limit of
        (s1, cs, Some err) \<Rightarrow> (s1, cs, [], False, False, Some err)
      | (s1, cs, None) \<Rightarrow>
          (case window (store (messageCache s1) channelID) cursor asc limit of
             (msgs, hasbefore, hasafter) \<Rightarrow> (s1, cs, msgs, hasbefore, hasafter, None)))"

definition spec_MessagesAfter ::
  "rest \<Rightarrow> server \<Rightarrow> Snowflake \<Rightarrow> Snowflake \<Rightarrow> nat \<Rightarrow>
     server \<times> call list \<times> discord_Message list \<times> bool \<times> bool \<times> go_error option" where
  "spec_MessagesAfter d s channelID after limit = page d s channelID after True limit"

definition spec_MessagesBefore ::
  "rest \<Rightarrow> server \<Rightarrow> Snowflake \<Rightarrow> Snowflake \<Rightarrow> nat \<Rightarrow>
     server \<times> call list \<times> discord_Message list \<times> bool \<times> bool \<times> go_error option" where
  "spec_MessagesBefore d s channelID before limit = page d s channelID before False limit"

section \<open>Member resolution\<close>

text \<open>
  Modelled from the spec: \<open>s.ensureMembers\<close>, defined outside server.go. After the spec's
  MemberResolver: nothing is fetched for a channel already marked resolved in
  \<open>membersGot\<close>; otherwise the distinct authors of the messages are fetched in a single
  batched call, the results stored as member records and the channel marked resolved.
  A failure (an expired deadline or an error of the REST call) is returned and marks
  nothing.
\<close>

definition spec_ensureMembers ::
  "rest \<Rightarrow> server \<Rightarrow> Channel \<Rightarrow> discord_Message list \<Rightarrow>
     server \<times> call list \<times> go_error option" where
  "spec_ensureMembers d s post msgs =
     (if Channel_ID post \<in> membersGot s then (s, [], None)
      else (let userIDs = remdups (map (\<lambda>m. User_ID (Message_Author m)) msgs)
            in case fetchMembers d (Channel_GuildID post) userIDs of
                 Inl err \<Rightarrow> (s, [CallFetchMembers (Channel_GuildID post) userIDs], Some err)
               | Inr records \<Rightarrow>
                   (s\<lparr>memberRecords :=
                        foldl (\<lambda>recs mr.
                                 recs((Channel_GuildID post, Member_UserID mr) := Some mr))
                              (memberRecords s) records,
                      membersGot := insert (Channel_ID post) (membersGot s)\<rparr>,
                    [CallFetchMembers (Channel_GuildID post) userIDs], None)))"

text \<open>
  A server whose cache and member resolution are the ones modelled from the spec, over
  a REST client.
\<close>

definition spec_cache :: "rest \<Rightarrow> 'r collab \<Rightarrow> bool" where
  "spec_cache rc d =
     (MessagesAfter d = spec_MessagesAfter rc \<and>
      MessagesBefore d = spec_MessagesBefore rc \<and>
      ensureMembers d = spec_ensureMembers rc)"

definition with_spec :: "rest \<Rightarrow> 'r collab \<Rightarrow> 'r collab" where
  "with_spec rc d =
     d\<lparr>MessagesAfter := spec_MessagesAfter rc,
       MessagesBefore := spec_MessagesBefore rc,
       ensureMembers := spec_ensureMembers rc\<rparr>"

text \<open>The effect of those calls on the cache of the server.\<close>

fun apply_cache_call :: "messageCache \<Rightarrow> cache_call \<Rightarrow> messageCache" where
  "apply_cache_call c (CacheSet m edited) = messageCache_Set m edited c"
| "apply_cache_call c (CacheRemove channelID messageID) =
     messageCache_Remove channelID messageID c"

definition handleEvent :: "handler list \<Rightarrow> server \<Rightarrow> gateway_event \<Rightarrow> server" where
  "handleEvent hs s ev =
     s\<lparr>messageCache := foldl apply_cache_call (messageCache s) (dispatch hs ev)\<rparr>"

section \<open>Runs of the server\<close>

text \<open>
  What changes the state of the server: a page call on the cache, a request for a
  post page, and a gateway event. A run applies a list of them in order and collects
  the calls made.
\<close>

datatype op =
    OpPage Snowflake Snowflake bool nat
  | OpGetPost request
  | OpEvent gateway_event

fun step :: "rest \<Rightarrow> 'r collab \<Rightarrow> server \<Rightarrow> op \<Rightarrow> server \<times> call list" where
  "step rc d s (OpPage channelID cursor asc limit) =
     (case page rc s channelID cursor asc limit of (s1, cs, res) \<Rightarrow> (s1, cs))"
| "step rc d s (OpGetPost r) = (case getPost d s r of (out, s1, cs) \<Rightarrow> (s1, cs))"
| "step rc d s (OpEvent ev) = (handleEvent registered s ev, [])"

fun run :: "rest \<Rightarrow> 'r collab \<Rightarrow> server \<Rightarrow> op list \<Rightarrow> server \<times> call list" where
  "run rc d s [] = (s, [])"
| "run rc d s (x # xs) =
     (case step rc d s x of
        (s1, cs) \<Rightarrow> (case run rc d s1 xs of (s2, cs') \<Rightarrow> (s2, cs @ cs')))"

section \<open>Predicates of the statements\<close>

text \<open>
  A group and the run of messages it was built from: the run is not empty, the group
  holds the run's messages as \<open>s.message\<close> renders them, and every message of the run
  has the group's author.
\<close>

definition group_of_run ::
  "(discord_Message \<Rightarrow> 'r) \<Rightarrow> 'r MessageGroup \<Rightarrow> discord_Message list \<Rightarrow> bool" where
  "group_of_run s_message g ms =
     (ms \<noteq> [] \<and> Group_Messages g = map s_message ms \<and>
      (\<forall>m \<in> set ms. User_ID (Message_Author m) = Author_ID (Group_Author g)))"

text \<open>The history fetches for one channel among the calls made.\<close>

definition history_fetches :: "Snowflake \<Rightarrow> call list \<Rightarrow> call list" where
  "history_fetches channelID cs =
     filter (\<lambda>c. case c of
                   CallFetchHistory ch cursor asc limit \<Rightarrow> ch = channelID
                 | _ \<Rightarrow> False) cs"

text \<open>
  The invariant of the spec's ChannelEntry: the cached sequence of every channel is
  strictly ascending by identifier (ascending, and no identifier twice).
\<close>

definition store_ordered :: "server \<Rightarrow> bool" where
  "store_ordered s =
     (\<forall>channelID. sorted_wrt (<) (map Message_ID (store (messageCache s) channelID)))"

section \<open>A concrete guild\<close>

text \<open>
  Guild 1 with the forum 2, its threads 3 and 4 (4 is pinned) and a thread 5 of another
  channel. The cache holds the messages 10, 11 and 12 of thread 3, which is recorded as
  inactive and as resolved. The REST client times out on members, and every lookup of an
  unknown guild or forum answers 404, of an unknown post 503. The cache and the member
  resolution are the ones modelled from the spec. \<open>s.message\<close> is represented by the
  identifier of the message.
\<close>

definition ex_guild :: Guild where
  "ex_guild = \<lparr>Guild_ID = 1, Guild_Name = ''guild''\<rparr>"

definition ex_channel :: "Snowflake \<Rightarrow> Snowflake \<Rightarrow> ChannelType \<Rightarrow> 64 word \<Rightarrow> Channel" where
  "ex_channel channelID parentID ty flags =
     \<lparr>Channel_ID = channelID, Channel_GuildID = 1, Channel_ParentID = parentID,
      Channel_Type = ty, Channel_NSFW = False, Channel_Flags = flags,
      Channel_LastMessageID = 0, Channel_AppliedTags = [], Channel_AvailableTags = []\<rparr>"

definition ex_message :: "Snowflake \<Rightarrow> Snowflake \<Rightarrow> discord_Message" where
  "ex_message messageID userID =
     \<lparr>Message_ID = messageID, Message_ChannelID = 3, Message_GuildID = 0,
      Message_Author = \<lparr>User_ID = userID, User_Username = ''user''\<rparr>,
      Message_Content = [], Message_Edited = False\<rparr>"

definition ex_author :: "discord_Message \<Rightarrow> Author" where
  "ex_author m =
     \<lparr>Author_ID = User_ID (Message_Author m), Author_Name = User_Username (Message_Author m)\<rparr>"

definition ex_members :: "Snowflake \<Rightarrow> Snowflake list \<Rightarrow> go_error + MemberRecord list" where
  "ex_members g userIDs =
     Inr (map (\<lambda>u. \<lparr>Member_UserID = u, Member_Name = ''member'', Member_Avatar = []\<rparr>) userIDs)"

definition ex_rest :: rest where
  "ex_rest =
     \<lparr>fetchHistory = (\<lambda>c cursor asc limit. Inr []),
      archived = (\<lambda>c. False),
      fetchMembers = (\<lambda>g userIDs. Inl (ErrorString ''context deadline exceeded''))\<rparr>"

definition ex_collab :: "Snowflake collab" where
  "ex_collab =
     \<lparr>Cabinet_Guild = (\<lambda>g. if g = 1 then Inr ex_guild else Inl (HTTPError 404)),
      Cabinet_Channel =
        (\<lambda>c. if c = 2 then Inr (ex_channel 2 0 GuildForum 0) else Inl (HTTPError 404)),
      State_Channel =
        (\<lambda>c. if c = 3 then Inr (ex_channel 3 2 GuildPublicThread 0)
             else Inl (Errorf ''request failed'' (HTTPError 503))),
      channels =
        (\<lambda>g. Inr [ex_channel 2 0 GuildForum 0, ex_channel 3 2 GuildPublicThread 0,
                   ex_channel 4 2 GuildPublicThread 2, ex_channel 5 9 GuildPublicThread 0]),
      message = Message_ID,
      author = ex_author,
      MessagesAfter = spec_MessagesAfter ex_rest,
      MessagesBefore = spec_MessagesBefore ex_rest,
      ensureMembers = spec_ensureMembers ex_rest\<rparr>"

definition ex_server :: server where
  "ex_server =
     \<lparr>messageCache =
        \<lparr>store = (\<lambda>c. if c = 3 then [ex_message 10 7, ex_message 11 7, ex_message 12 8] else []),
         complete = {}\<rparr>,
      fetchedInactive = {3},
      membersGot = {3},
      memberRecords = (\<lambda>k. None),
      URL = ''https://forum.example''\<rparr>"

definition ex_request ::
  "string \<Rightarrow> string \<Rightarrow> string \<Rightarrow> string \<Rightarrow> string \<Rightarrow> string \<Rightarrow> request" where
  "ex_request g f p pg after before =
     \<lparr>param_guildID = g, param_forumID = f, param_postID = p,
      param_page = pg, query_after = after, query_before = before\<rparr>"

section \<open>The stages of a request\<close>

text \<open>
  \<open>getPost\<close> and \<open>getForum\<close> return at the first stage that fails. The lemmas below
  give the response of each such return, and what is left of \<open>getPost\<close> once the page
  of messages has been fetched.
\<close>

lemma getPost_guild_fails:
  "guildFromReq d r = (c1, Inl (status, err)) \<Longrightarrow> getPost d s r = (DisplayErr status err, s, c1)"
  by (simp add: getPost_def)

lemma getPost_forum_fails:
  "guildFromReq d r = (c1, Inr guild) \<Longrightarrow> forumFromReq d r = (c2, Inl (status, err)) \<Longrightarrow>
   getPost d s r = (DisplayErr status err, s, c1 @ c2)"
  by (simp add: getPost_def)

lemma getPost_post_fails:
  "guildFromReq d r = (c1, Inr guild) \<Longrightarrow> forumFromReq d r = (c2, Inr forum) \<Longrightarrow>
   postFromReq d r = (c3, Inl (status, err)) \<Longrightarrow>
   getPost d s r = (DisplayErr status err, s, c1 @ c2 @ c3)"
  by (simp add: getPost_def)

lemma getPost_cursor_fails:
  "guildFromReq d r = (c1, Inr guild) \<Longrightarrow> forumFromReq d r = (c2, Inr forum) \<Longrightarrow>
   postFromReq d r = (c3, Inr post) \<Longrightarrow> requestCursor r = Inl err \<Longrightarrow>
   getPost d s r =
     (DisplayErr StatusBadRequest (Some (Errorf ''invalid snowflake: %w'' err)), s, c1 @ c2 @ c3)"
  by (simp add: getPost_def)

lemma getPost_fetched:
  "guildFromReq d r = (c1, Inr guild) \<Longrightarrow> forumFromReq d r = (c2, Inr forum) \<Longrightarrow>
   postFromReq d r = (c3, Inr post) \<Longrightarrow> requestCursor r = Inr (cur, asc) \<Longrightarrow>
   (if asc then MessagesAfter d s (Channel_ID post) cur 25
    else MessagesBefore d s (Channel_ID post) cur 25) = (s1, c4, msgs, hasbefore, hasafter, err) \<Longrightarrow>
   getPost d s r =
     (case page_cursors msgs hasbefore hasafter of
        None \<Rightarrow> (Panic, s1, c1 @ c2 @ c3 @ c4)
      | Some (prev, next) \<Rightarrow>
     (case err of
        Some e \<Rightarrow>
          (DisplayErr StatusInternalServerError
             (Some (Errorf ''fetching post's messages: %w'' e)),
           s1, c1 @ c2 @ c3 @ c4)
      | None \<Rightarrow>
     (case ensureMembers d s1 post msgs of
        (s2, c5, Some e) \<Rightarrow>
          (DisplayErr StatusInternalServerError
             (Some (Errorf ''fetching post's members: %w'' e)),
           s2, c1 @ c2 @ c3 @ c4 @ c5)
      | (s2, c5, None) \<Rightarrow>
          (ExecuteTemplate ''post.gohtml''
             \<lparr>pctx_Guild = guild, pctx_Forum = forum, pctx_Post = post,
              pctx_Prev = prev, pctx_Next = next,
              pctx_MessageGroups =
                groupMessages (message d) (author d) (Guild_ID guild) msgs,
              pctx_URL = URL s\<rparr>,
           s2, c1 @ c2 @ c3 @ c4 @ c5))))"
  by (simp add: getPost_def)

lemma page_cursors_None: "(page_cursors msgs hasbefore hasafter = None) = (hasbefore \<and> msgs = [])"
  by (simp add: page_cursors_def Let_def)

lemma page_cursors_Some:
  "hasbefore \<longrightarrow> msgs \<noteq> [] \<Longrightarrow>
   page_cursors msgs hasbefore hasafter =
     Some (if hasbefore then Message_ID (hd msgs) else 0,
           if hasafter \<and> msgs \<noteq> [] then Message_ID (last msgs) else 0)"
  by (auto simp add: page_cursors_def Let_def hd_conv_nth last_conv_nth)

lemma getPost_rendered:
  assumes "getPost d s r = (ExecuteTemplate name ctx, s', cs)"
  obtains guild :: Guild and post :: Channel and cur asc s1 c4 msgs hb ha where
    "(if asc then MessagesAfter d s (Channel_ID post) cur 25
      else MessagesBefore d s (Channel_ID post) cur 25) = (s1, c4, msgs, hb, ha, None)"
    and "pctx_MessageGroups ctx = groupMessages (message d) (author d) (Guild_ID guild) msgs"
proof -
  obtain c1 g where g: "guildFromReq d r = (c1, g)" by (cases "guildFromReq d r") auto
  obtain c2 f where f: "forumFromReq d r = (c2, f)" by (cases "forumFromReq d r") auto
  obtain c3 p where p: "postFromReq d r = (c3, p)" by (cases "postFromReq d r") auto
  from assms g obtain guild where guild: "g = Inr guild"
    by (cases g) (auto simp add: getPost_def)
  from assms g f guild obtain forum where forum: "f = Inr forum"
    by (cases f) (auto simp add: getPost_def)
  from assms g f p guild forum obtain post where post: "p = Inr post"
    by (cases p) (auto simp add: getPost_def)
  note gfp = g [unfolded guild] f [unfolded forum] p [unfolded post]
  from assms obtain cur asc where ca: "requestCursor r = Inr (cur, asc)"
    using getPost_cursor_fails [OF gfp, of _ s]
    by (cases "requestCursor r") auto
  obtain s1 c4 msgs hb ha err where
    pg: "(if asc then MessagesAfter d s (Channel_ID post) cur 25
          else MessagesBefore d s (Channel_ID post) cur 25) = (s1, c4, msgs, hb, ha, err)"
    by (metis prod_cases6)
  from assms [unfolded getPost_fetched [OF gfp ca pg]]
  have "err = None \<and>
     pctx_MessageGroups ctx = groupMessages (message d) (author d) (Guild_ID guild) msgs"
    by (auto split: option.splits prod.splits)
  with pg that show ?thesis by blast
qed

lemma getForum_guild_fails:
  "guildFromReq d r = (c1, Inl (status, err)) \<Longrightarrow> getForum d s r = (DisplayErr status err, c1)"
  by (simp add: getForum_def)

lemma getForum_forum_fails:
  "guildFromReq d r = (c1, Inr guild) \<Longrightarrow> forumFromReq d r = (c2, Inl (status, err)) \<Longrightarrow>
   getForum d s r = (DisplayErr status err, c1 @ c2)"
  by (simp add: getForum_def)

lemma lookups_MessagesAfter_update:
  "guildFromReq (d\<lparr>MessagesAfter := f\<rparr>) r = guildFromReq d r"
  "forumFromReq (d\<lparr>MessagesAfter := f\<rparr>) r = forumFromReq d r"
  "postFromReq (d\<lparr>MessagesAfter := f\<rparr>) r = postFromReq d r"
  by (simp_all add: guildFromReq_def forumFromReq_def postFromReq_def split: sum.splits)

lemma history_fetches_append [simp]:
  "history_fetches ch (cs @ cs') = history_fetches ch cs @ history_fetches ch cs'"
  by (simp add: history_fetches_def)

lemma lookup_no_history:
  "history_fetches ch (fst (guildFromReq d r)) = []"
  "history_fetches ch (fst (forumFromReq d r)) = []"
  "history_fetches ch (fst (postFromReq d r)) = []"
  by (simp_all add: guildFromReq_def forumFromReq_def postFromReq_def history_fetches_def
      split: sum.splits)

text \<open>
  \<open>getPost\<close> changes the server through the cache and the member resolution only: a
  property that these two keep is kept by \<open>getPost\<close>, and its calls are those of its
  lookups and of these two.
\<close>

lemma getPost_keeps:
  assumes "getPost d s r = (out, s', cs)" and "P s"
    and pg: "\<And>(post :: Channel) cur asc s1 c4 res.
      (if asc then MessagesAfter d s (Channel_ID post) cur 25
       else MessagesBefore d s (Channel_ID post) cur 25) = (s1, c4, res) \<Longrightarrow> P s1"
    and em: "\<And>s1 post msgs s2 c5 e. P s1 \<Longrightarrow> ensureMembers d s1 post msgs = (s2, c5, e) \<Longrightarrow> P s2"
  shows "P s'"
proof -
  obtain c1 g where g: "guildFromReq d r = (c1, g)" by (cases "guildFromReq d r") auto
  obtain c2 f where f: "forumFromReq d r = (c2, f)" by (cases "forumFromReq d r") auto
  obtain c3 p where p: "postFromReq d r = (c3, p)" by (cases "postFromReq d r") auto
  show ?thesis
  proof (cases g)
    case (Inl a)
    with assms(1,2) g show ?thesis by (cases a) (auto simp add: getPost_def)
  next
    case guild: (Inr guild)
    show ?thesis
    proof (cases f)
      case (Inl a)
      with assms(1,2) g f guild show ?thesis by (cases a) (auto simp add: getPost_def)
    next
      case forum: (Inr forum)
      show ?thesis
      proof (cases p)
        case (Inl a)
        with assms(1,2) g f p guild forum show ?thesis by (cases a) (auto simp add: getPost_def)
      next
        case post: (Inr post)
        note gfp = g [unfolded guild] f [unfolded forum] p [unfolded post]
        show ?thesis
        proof (cases "requestCursor r")
          case (Inl err)
          with assms(1,2) show ?thesis using getPost_cursor_fails [OF gfp Inl, of s] by auto
        next
          case (Inr ca)
          obtain cur asc where ca: "ca = (cur, asc)" by (cases ca) auto
          obtain s1 c4 msgs hb ha err where
            fetched: "(if asc then MessagesAfter d s (Channel_ID post) cur 25
                  else MessagesBefore d s (Channel_ID post) cur 25) = (s1, c4, msgs, hb, ha, err)"
            by (metis prod_cases6)
          from pg [OF this] have k1: "P s1" .
          obtain s2 c5 e where m: "ensureMembers d s1 post msgs = (s2, c5, e)"
            by (cases "ensureMembers d s1 post msgs") auto
          from em [OF k1 m] have k2: "P s2" .
          from assms(1) show ?thesis
            unfolding getPost_fetched [OF gfp Inr [unfolded ca] fetched]
            using k1 k2 m by (auto split: option.splits prod.splits)
        qed
      qed
    qed
  qed
qed

lemma getPost_calls:
  assumes "getPost d s r = (out, s', cs)"
    and pg: "\<And>(post :: Channel) cur asc s1 c4 res.
      (if asc then MessagesAfter d s (Channel_ID post) cur 25
       else MessagesBefore d s (Channel_ID post) cur 25) = (s1, c4, res) \<Longrightarrow>
      history_fetches ch c4 = []"
    and em: "\<And>s1 post msgs s2 c5 e. ensureMembers d s1 post msgs = (s2, c5, e) \<Longrightarrow>
      history_fetches ch c5 = []"
  shows "history_fetches ch cs = []"
proof -
  obtain c1 g where g: "guildFromReq d r = (c1, g)" by (cases "guildFromReq d r") auto
  obtain c2 f where f: "forumFromReq d r = (c2, f)" by (cases "forumFromReq d r") auto
  obtain c3 p where p: "postFromReq d r = (c3, p)" by (cases "postFromReq d r") auto
  have h: "history_fetches ch c1 = []" "history_fetches ch c2 = []" "history_fetches ch c3 = []"
    using lookup_no_history [of ch d r] by (simp_all add: g f p)
  show ?thesis
  proof (cases g)
    case (Inl a)
    with assms(1) g h show ?thesis by (cases a) (auto simp add: getPost_def)
  next
    case guild: (Inr guild)
    show ?thesis
    proof (cases f)
      case (Inl a)
      with assms(1) g f guild h show ?thesis by (cases a) (auto simp add: getPost_def)
    next
      case forum: (Inr forum)
      show ?thesis
      proof (cases p)
        case (Inl a)
        with assms(1) g f p guild forum h show ?thesis by (cases a) (auto simp add: getPost_def)
      next
        case post: (Inr post)
        note gfp = g [unfolded guild] f [unfolded forum] p [unfolded post]
        show ?thesis
        proof (cases "requestCursor r")
          case (Inl err)
          with assms(1) h show ?thesis using getPost_cursor_fails [OF gfp Inl, of s] by auto
        next
          case (Inr ca)
          obtain cur asc where ca: "ca = (cur, asc)" by (cases ca) auto
          obtain s1 c4 msgs hb ha err where
            fetched: "(if asc then MessagesAfter d s (Channel_ID post) cur 25
                  else MessagesBefore d s (Channel_ID post) cur 25) = (s1, c4, msgs, hb, ha, err)"
            by (metis prod_cases6)
          from pg [OF this] have k1: "history_fetches ch c4 = []" .
          obtain s2 c5 e where m: "ensureMembers d s1 post msgs = (s2, c5, e)"
            by (cases "ensureMembers d s1 post msgs") auto
          from em [OF m] have k2: "history_fetches ch c5 = []" .
          from assms(1) show ?thesis
            unfolding getPost_fetched [OF gfp Inr [unfolded ca] fetched]
            using h k1 k2 m by (auto split: option.splits prod.splits)
        qed
      qed
    qed
  qed
qed

section \<open>Servers with the cache of the spec\<close>

lemma spec_cache_with_spec: "spec_cache rc (with_spec rc d)"
  by (simp add: spec_cache_def with_spec_def)

lemma spec_cache_page:
  assumes "spec_cache rc d"
  shows "(if asc then MessagesAfter d s ch cur limit else MessagesBefore d s ch cur limit) =
     page rc s ch cur asc limit"
  using assms by (simp add: spec_cache_def spec_MessagesAfter_def spec_MessagesBefore_def)

lemma spec_cache_ensureMembers:
  "spec_cache rc d \<Longrightarrow> ensureMembers d = spec_ensureMembers rc"
  by (simp add: spec_cache_def)

section \<open>The concrete guild, evaluated\<close>

lemmas parse_defs = ParseSnowflake_def ParseUint_def digit_of_def Atoi_def

lemma ex_guildFromReq:
  "guildFromReq ex_collab (ex_request ''1'' f p pg a b) = ([CallCabinetGuild 1], Inr ex_guild)"
  by (simp add: guildFromReq_def ex_request_def ex_collab_def parse_defs)

lemma ex_forumFromReq:
  "forumFromReq ex_collab (ex_request g ''2'' p pg a b) =
     ([CallCabinetChannel 2], Inr (ex_channel 2 0 GuildForum 0))"
  by (simp add: forumFromReq_def ex_request_def ex_collab_def parse_defs ex_channel_def)

lemma ex_postFromReq:
  "postFromReq ex_collab (ex_request g f ''3'' pg a b) =
     ([CallStateChannel 3], Inr (ex_channel 3 2 GuildPublicThread 0))"
  by (simp add: postFromReq_def ex_request_def ex_collab_def parse_defs)

lemma ex_requestCursor: "requestCursor (ex_request g f p pg ''10'' []) = Inr (10, True)"
  by (simp add: requestCursor_def ex_request_def parse_defs)

lemma ex_requestCursor_before:
  "requestCursor (ex_request g f p pg [] ''12'') = Inr (12, False)"
  by (simp add: requestCursor_def ex_request_def parse_defs)

lemma ex_spec_cache: "spec_cache ex_rest ex_collab"
  by (simp add: spec_cache_def ex_collab_def)

lemma ex_MessagesAfter:
  "MessagesAfter ex_collab ex_server 3 10 25 =
     (ex_server, [], [ex_message 11 7, ex_message 12 8], True, False, None)"
  by (simp add: ex_collab_def spec_MessagesAfter_def page_def backfill_def backfillState_def
      ex_server_def window_def Let_def ex_message_def)

lemma ex_MessagesBefore:
  "MessagesBefore ex_collab ex_server 3 12 25 =
     (ex_server, [], [ex_message 10 7, ex_message 11 7], False, True, None)"
  by (simp add: ex_collab_def spec_MessagesBefore_def page_def backfill_def backfillState_def
      ex_server_def window_def Let_def ex_message_def)

lemma ex_ensureMembers:
  "ensureMembers ex_collab ex_server (ex_channel 3 2 GuildPublicThread 0) msgs =
     (ex_server, [], None)"
  by (simp add: ex_collab_def spec_ensureMembers_def ex_server_def ex_channel_def)

lemma ex_getPost_after:
  "getPost ex_collab ex_server (ex_request ''1'' ''2'' ''3'' [] ''10'' []) =
   (ExecuteTemplate ''post.gohtml''
      \<lparr>pctx_Guild = ex_guild, pctx_Forum = ex_channel 2 0 GuildForum 0,
       pctx_Post = ex_channel 3 2 GuildPublicThread 0, pctx_Prev = 11, pctx_Next = 0,
       pctx_MessageGroups =
         [\<lparr>Group_Author = \<lparr>Author_ID = 7, Author_Name = ''user''\<rparr>, Group_Messages = [11]\<rparr>,
          \<lparr>Group_Author = \<lparr>Author_ID = 8, Author_Name = ''user''\<rparr>, Group_Messages = [12]\<rparr>],
       pctx_URL = ''https://forum.example''\<rparr>,
    ex_server, [CallCabinetGuild 1, CallCabinetChannel 2, CallStateChannel 3])"
proof -
  have pg: "(if True then MessagesAfter ex_collab ex_server
        (Channel_ID (ex_channel 3 2 GuildPublicThread 0)) 10 25
      else MessagesBefore ex_collab ex_server
        (Channel_ID (ex_channel 3 2 GuildPublicThread 0)) 10 25) =
      (ex_server, [], [ex_message 11 7, ex_message 12 8], True, False, None)"
    by (simp add: ex_MessagesAfter ex_channel_def)
  show ?thesis
    unfolding getPost_fetched [OF ex_guildFromReq ex_forumFromReq ex_postFromReq
        ex_requestCursor pg] ex_ensureMembers
    by (simp add: page_cursors_def groupMessages_def group_step_def Let_def ex_message_def
        ex_collab_def ex_author_def ex_guild_def ex_server_def)
qed

lemma ex_getPost_before:
  "getPost ex_collab ex_server (ex_request ''1'' ''2'' ''3'' [] [] ''12'') =
   (ExecuteTemplate ''post.gohtml''
      \<lparr>pctx_Guild = ex_guild, pctx_Forum = ex_channel 2 0 GuildForum 0,
       pctx_Post = ex_channel 3 2 GuildPublicThread 0, pctx_Prev = 0, pctx_Next = 11,
       pctx_MessageGroups =
         [\<lparr>Group_Author = \<lparr>Author_ID = 7, Author_Name = ''user''\<rparr>,
           Group_Messages = [10, 11]\<rparr>],
       pctx_URL = ''https://forum.example''\<rparr>,
    ex_server, [CallCabinetGuild 1, CallCabinetChannel 2, CallStateChannel 3])"
proof -
  have pg: "(if False then MessagesAfter ex_collab ex_server
        (Channel_ID (ex_channel 3 2 GuildPublicThread 0)) 12 25
      else MessagesBefore ex_collab ex_server
        (Channel_ID (ex_channel 3 2 GuildPublicThread 0)) 12 25) =
      (ex_server, [], [ex_message 10 7, ex_message 11 7], False, True, None)"
    by (simp add: ex_MessagesBefore ex_channel_def)
  show ?thesis
    unfolding getPost_fetched [OF ex_guildFromReq ex_forumFromReq ex_postFromReq
        ex_requestCursor_before pg] ex_ensureMembers
    by (simp add: page_cursors_def groupMessages_def group_step_def Let_def ex_message_def
        ex_collab_def ex_author_def ex_guild_def ex_server_def)
qed

lemma ex_MessagesAfter_unresolved:
  "MessagesAfter ex_collab (ex_server\<lparr>membersGot := {}\<rparr>) 3 10 25 =
     (ex_server\<lparr>membersGot := {}\<rparr>, [], [ex_message 11 7, ex_message 12 8], True, False, None)"
  by (simp add: ex_collab_def spec_MessagesAfter_def page_def backfill_def backfillState_def
      ex_server_def window_def Let_def ex_message_def)

lemma ex_ensureMembers_fails:
  "ensureMembers ex_collab (ex_server\<lparr>membersGot := {}\<rparr>) (ex_channel 3 2 GuildPublicThread 0)
     [ex_message 11 7, ex_message 12 8] =
   (ex_server\<lparr>membersGot := {}\<rparr>, [CallFetchMembers 1 [7, 8]],
    Some (ErrorString ''context deadline exceeded''))"
  by (simp add: ex_collab_def spec_ensureMembers_def ex_rest_def ex_server_def ex_channel_def
      ex_message_def)

section \<open>Failed lookups\<close>

text \<open>
  Claim C7. When the lookup of the guild, of the forum or of the post fails with an
  error \<open>e\<close>, the handler answers 404 with no error if \<open>e\<close> carries the HTTP status
  404 (the chain of \<open>e\<close> holds an \<open>HTTPError\<close> and its status is 404), and otherwise
  500 with \<open>e\<close> wrapped. The calls made are the lookups up to the failed one, each
  once and none again, and the server is unchanged. This holds for \<open>getPost\<close> (three
  lookups) and for \<open>getForum\<close> (two), and for the three lookup functions themselves,
  whichever handler calls them.
\<close>

theorem lookup_failure_status:
  "(ParseSnowflake (param_guildID r) = Inr guildID \<longrightarrow> Cabinet_Guild d guildID = Inl e \<longrightarrow>
      getPost d s r =
        (if discordStatusIs e StatusNotFound then DisplayErr StatusNotFound None
         else DisplayErr StatusInternalServerError (Some (Errorf ''fetching guild: %w'' e)),
         s, [CallCabinetGuild guildID]) \<and>
      getForum d s r =
        (if discordStatusIs e StatusNotFound then DisplayErr StatusNotFound None
         else DisplayErr StatusInternalServerError (Some (Errorf ''fetching guild: %w'' e)),
         [CallCabinetGuild guildID])) \<and>
   (guildFromReq d r = (c1, Inr guild) \<longrightarrow>
    ParseSnowflake (param_forumID r) = Inr forumID \<longrightarrow> Cabinet_Channel d forumID = Inl e \<longrightarrow>
      getPost d s r =
        (if discordStatusIs e StatusNotFound then DisplayErr StatusNotFound None
         else DisplayErr StatusInternalServerError (Some (Errorf ''fetching forum: %w'' e)),
         s, c1 @ [CallCabinetChannel forumID]) \<and>
      getForum d s r =
        (if discordStatusIs e StatusNotFound then DisplayErr StatusNotFound None
         else DisplayErr StatusInternalServerError (Some (Errorf ''fetching forum: %w'' e)),
         c1 @ [CallCabinetChannel forumID])) \<and>
   (guildFromReq d r = (c1, Inr guild) \<longrightarrow> forumFromReq d r = (c2, Inr forum) \<longrightarrow>
    ParseSnowflake (param_postID r) = Inr postID \<longrightarrow> State_Channel d postID = Inl e \<longrightarrow>
      getPost d s r =
        (if discordStatusIs e StatusNotFound then DisplayErr StatusNotFound None
         else DisplayErr StatusInternalServerError (Some (Errorf ''fetching post: %w'' e)),
         s, c1 @ c2 @ [CallStateChannel postID])) \<and>
   discordStatusIs e StatusNotFound = (errors_As_HTTPError e = Some StatusNotFound) \<and>
   (ParseSnowflake (param_guildID r) = Inr guildID \<longrightarrow> Cabinet_Guild d guildID = Inl e \<longrightarrow>
      guildFromReq d r =
        ([CallCabinetGuild guildID],
         Inl (if discordStatusIs e StatusNotFound then (StatusNotFound, None)
              else (StatusInternalServerError, Some (Errorf ''fetching guild: %w'' e))))) \<and>
   (ParseSnowflake (param_forumID r) = Inr forumID \<longrightarrow> Cabinet_Channel d forumID = Inl e \<longrightarrow>
      forumFromReq d r =
        ([CallCabinetChannel forumID],
         Inl (if discordStatusIs e StatusNotFound then (StatusNotFound, None)
              else (StatusInternalServerError, Some (Errorf ''fetching forum: %w'' e))))) \<and>
   (ParseSnowflake (param_postID r) = Inr postID \<longrightarrow> State_Channel d postID = Inl e \<longrightarrow>
      postFromReq d r =
        ([CallStateChannel postID],
         Inl (if discordStatusIs e StatusNotFound then (StatusNotFound, None)
              else (StatusInternalServerError, Some (Errorf ''fetching post: %w'' e)))))"
proof (intro conjI impI)
  assume "ParseSnowflake (param_guildID r) = Inr guildID" "Cabinet_Guild d guildID = Inl e"
  then have g: "guildFromReq d r =
      ([CallCabinetGuild guildID],
       Inl (if discordStatusIs e StatusNotFound then (StatusNotFound, None)
            else (StatusInternalServerError, Some (Errorf ''fetching guild: %w'' e))))"
    by (simp add: guildFromReq_def)
  show "getPost d s r =
        (if discordStatusIs e StatusNotFound then DisplayErr StatusNotFound None
         else DisplayErr StatusInternalServerError (Some (Errorf ''fetching guild: %w'' e)),
         s, [CallCabinetGuild guildID])"
    by (cases "discordStatusIs e StatusNotFound") (simp_all add: g getPost_guild_fails)
  show "getForum d s r =
        (if discordStatusIs e StatusNotFound then DisplayErr StatusNotFound None
         else DisplayErr StatusInternalServerError (Some (Errorf ''fetching guild: %w'' e)),
         [CallCabinetGuild guildID])"
    by (cases "discordStatusIs e StatusNotFound") (simp_all add: g getForum_guild_fails)
next
  assume guild: "guildFromReq d r = (c1, Inr guild)"
    and "ParseSnowflake (param_forumID r) = Inr forumID" "Cabinet_Channel d forumID = Inl e"
  then have f: "forumFromReq d r =
      ([CallCabinetChannel forumID],
       Inl (if discordStatusIs e StatusNotFound then (StatusNotFound, None)
            else (StatusInternalServerError, Some (Errorf ''fetching forum: %w'' e))))"
    by (simp add: forumFromReq_def)
  show "getPost d s r =
        (if discordStatusIs e StatusNotFound then DisplayErr StatusNotFound None
         else DisplayErr StatusInternalServerError (Some (Errorf ''fetching forum: %w'' e)),
         s, c1 @ [CallCabinetChannel forumID])"
    by (cases "discordStatusIs e StatusNotFound")
       (simp_all add: f getPost_forum_fails [OF guild])
  show "getForum d s r =
        (if discordStatusIs e StatusNotFound then DisplayErr StatusNotFound None
         else DisplayErr StatusInternalServerError (Some (Errorf ''fetching forum: %w'' e)),
         c1 @ [CallCabinetChannel forumID])"
    by (cases "discordStatusIs e StatusNotFound")
       (simp_all add: f getForum_forum_fails [OF guild])
next
  assume guild: "guildFromReq d r = (c1, Inr guild)"
    and forum: "forumFromReq d r = (c2, Inr forum)"
    and "ParseSnowflake (param_postID r) = Inr postID" "State_Channel d postID = Inl e"
  then have p: "postFromReq d r =
      ([CallStateChannel postID],
       Inl (if discordStatusIs e StatusNotFound then (StatusNotFound, None)
            else (StatusInternalServerError, Some (Errorf ''fetching post: %w'' e))))"
    by (simp add: postFromReq_def)
  show "getPost d s r =
        (if discordStatusIs e StatusNotFound then DisplayErr StatusNotFound None
         else DisplayErr StatusInternalServerError (Some (Errorf ''fetching post: %w'' e)),
         s, c1 @ c2 @ [CallStateChannel postID])"
    by (cases "discordStatusIs e StatusNotFound")
       (simp_all add: p getPost_post_fails [OF guild forum])
next
  show "discordStatusIs e StatusNotFound = (errors_As_HTTPError e = Some StatusNotFound)"
    by (simp add: discordStatusIs_def split: option.splits)
next
  assume "ParseSnowflake (param_guildID r) = Inr guildID" "Cabinet_Guild d guildID = Inl e"
  then show "guildFromReq d r =
      ([CallCabinetGuild guildID],
       Inl (if discordStatusIs e StatusNotFound then (StatusNotFound, None)
            else (StatusInternalServerError, Some (Errorf ''fetching guild: %w'' e))))"
    by (simp add: guildFromReq_def)
next
  assume "ParseSnowflake (param_forumID r) = Inr forumID" "Cabinet_Channel d forumID = Inl e"
  then show "forumFromReq d r =
      ([CallCabinetChannel forumID],
       Inl (if discordStatusIs e StatusNotFound then (StatusNotFound, None)
            else (StatusInternalServerError, Some (Errorf ''fetching forum: %w'' e))))"
    by (simp add: forumFromReq_def)
next
  assume "ParseSnowflake (param_postID r) = Inr postID" "State_Channel d postID = Inl e"
  then show "postFromReq d r =
      ([CallStateChannel postID],
       Inl (if discordStatusIs e StatusNotFound then (StatusNotFound, None)
            else (StatusInternalServerError, Some (Errorf ''fetching post: %w'' e))))"
    by (simp add: postFromReq_def)
qed

theorem lookup_failure_status_witness:
  "getPost ex_collab ex_server (ex_request ''7'' ''2'' ''3'' [] [] []) =
     (DisplayErr StatusNotFound None, ex_server, [CallCabinetGuild 7]) \<and>
   getForum ex_collab ex_server (ex_request ''1'' ''8'' ''3'' [] [] []) =
     (DisplayErr StatusNotFound None, [CallCabinetGuild 1, CallCabinetChannel 8]) \<and>
   getPost ex_collab ex_server (ex_request ''1'' ''2'' ''9'' [] [] []) =
     (DisplayErr StatusInternalServerError
        (Some (Errorf ''fetching post: %w'' (Errorf ''request failed'' (HTTPError 503)))),
      ex_server, [CallCabinetGuild 1, CallCabinetChannel 2, CallStateChannel 9])"
proof -
  have p7: "ParseSnowflake (param_guildID (ex_request ''7'' ''2'' ''3'' [] [] [])) = Inr 7"
    and p8: "ParseSnowflake (param_forumID (ex_request ''1'' ''8'' ''3'' [] [] [])) = Inr 8"
    and p9: "ParseSnowflake (param_postID (ex_request ''1'' ''2'' ''9'' [] [] [])) = Inr 9"
    by (simp_all add: ex_request_def parse_defs)
  have l7: "Cabinet_Guild ex_collab 7 = Inl (HTTPError 404)"
    and l8: "Cabinet_Channel ex_collab 8 = Inl (HTTPError 404)"
    and l9: "State_Channel ex_collab 9 = Inl (Errorf ''request failed'' (HTTPError 503))"
    by (simp_all add: ex_collab_def)
  have s404: "discordStatusIs (HTTPError 404) StatusNotFound"
    and s503: "\<not> discordStatusIs (Errorf ''request failed'' (HTTPError 503)) StatusNotFound"
    by (simp_all add: discordStatusIs_def)
  note thm7 = lookup_failure_status [where d = ex_collab and s = ex_server
      and r = "ex_request ''7'' ''2'' ''3'' [] [] []" and guildID = 7 and e = "HTTPError 404"]
  note thm8 = lookup_failure_status [where d = ex_collab and s = ex_server
      and r = "ex_request ''1'' ''8'' ''3'' [] [] []" and forumID = 8 and e = "HTTPError 404"
      and ?c1.0 = "[CallCabinetGuild 1]" and guild = ex_guild]
  note thm9 = lookup_failure_status [where d = ex_collab and s = ex_server
      and r = "ex_request ''1'' ''2'' ''9'' [] [] []" and postID = 9
      and e = "Errorf ''request failed'' (HTTPError 503)"
      and ?c1.0 = "[CallCabinetGuild 1]" and guild = ex_guild
      and ?c2.0 = "[CallCabinetChannel 2]" and forum = "ex_channel 2 0 GuildForum 0"]
  have a: "getPost ex_collab ex_server (ex_request ''7'' ''2'' ''3'' [] [] []) =
      (DisplayErr StatusNotFound None, ex_server, [CallCabinetGuild 7])"
    using thm7 [THEN conjunct1, rule_format, OF p7 l7, THEN conjunct1] s404 by simp
  have b: "getForum ex_collab ex_server (ex_request ''1'' ''8'' ''3'' [] [] []) =
      (DisplayErr StatusNotFound None, [CallCabinetGuild 1, CallCabinetChannel 8])"
    using thm8 [THEN conjunct2, THEN conjunct1, rule_format, OF ex_guildFromReq p8 l8,
        THEN conjunct2] s404 by simp
  have c: "getPost ex_collab ex_server (ex_request ''1'' ''2'' ''9'' [] [] []) =
      (DisplayErr StatusInternalServerError
        (Some (Errorf ''fetching post: %w'' (Errorf ''request failed'' (HTTPError 503)))),
       ex_server, [CallCabinetGuild 1, CallCabinetChannel 2, CallStateChannel 9])"
    using thm9 [THEN conjunct2, THEN conjunct2, THEN conjunct1, rule_format,
        OF ex_guildFromReq ex_forumFromReq p9 l9] s503 by simp
  show ?thesis using a b c by simp
qed

section \<open>The cursor reads of \<open>getPost\<close>\<close>

text \<open>
  Claim C8. Whatever the cache does: once the lookups and the cursor are through and
  the cache has answered with \<open>(msgs, hasbefore, hasafter, err)\<close>, \<open>getPost\<close> panics
  exactly when \<open>hasbefore\<close> holds and \<open>msgs\<close> is empty: that is the read of
  \<open>msgs[0]\<close>. The read of \<open>msgs[len(msgs)-1]\<close> is under its own test and never
  panics. So under the invariant that the cache never returns \<open>hasbefore\<close> with an
  empty slice, both reads are in bounds, \<open>Prev\<close> is the first identifier when
  \<open>hasbefore\<close> holds, and \<open>Next\<close> the last one when \<open>hasafter\<close> holds and the slice is
  not empty.
\<close>

theorem getPost_cursor_reads_in_bounds:
  assumes "guildFromReq d r = (c1, Inr guild)"
    and "forumFromReq d r = (c2, Inr forum)"
    and "postFromReq d r = (c3, Inr post)"
    and "requestCursor r = Inr (cur, asc)"
    and "(if asc then MessagesAfter d s (Channel_ID post) cur 25
          else MessagesBefore d s (Channel_ID post) cur 25) =
         (s1, c4, msgs, hasbefore, hasafter, err)"
  shows "(fst (getPost d s r) = Panic) = (hasbefore \<and> msgs = []) \<and>
         ((hasbefore \<longrightarrow> msgs \<noteq> []) \<longrightarrow>
            page_cursors msgs hasbefore hasafter =
              Some (if hasbefore then Message_ID (hd msgs) else 0,
                    if hasafter \<and> msgs \<noteq> [] then Message_ID (last msgs) else 0))"
proof -
  have "(fst (getPost d s r) = Panic) = (page_cursors msgs hasbefore hasafter = None)"
    unfolding getPost_fetched [OF assms]
    by (simp split: option.splits prod.splits)
  then show ?thesis
    using page_cursors_Some [of hasbefore msgs hasafter] by (simp add: page_cursors_None)
qed

theorem getPost_cursor_reads_in_bounds_witness:
  "fst (getPost ex_collab ex_server (ex_request ''1'' ''2'' ''3'' [] ''10'' [])) \<noteq> Panic \<and>
   page_cursors [ex_message 11 7, ex_message 12 8] True False = Some (11, 0) \<and>
   fst (getPost (ex_collab\<lparr>MessagesAfter := \<lambda>s ch after limit. (s, [], [], True, False, None)\<rparr>)
     ex_server (ex_request ''1'' ''2'' ''3'' [] ''10'' [])) = Panic"
proof -
  let ?r = "ex_request ''1'' ''2'' ''3'' [] ''10'' []"
  let ?bad = "ex_collab\<lparr>MessagesAfter := \<lambda>s ch after limit. (s, [], [], True, False, None)\<rparr>"
  have good: "(if True then MessagesAfter ex_collab ex_server
        (Channel_ID (ex_channel 3 2 GuildPublicThread 0)) 10 25
      else MessagesBefore ex_collab ex_server
        (Channel_ID (ex_channel 3 2 GuildPublicThread 0)) 10 25) =
      (ex_server, [], [ex_message 11 7, ex_message 12 8], True, False, None)"
    by (simp add: ex_MessagesAfter ex_channel_def)
  have bad: "(if True then MessagesAfter ?bad ex_server
        (Channel_ID (ex_channel 3 2 GuildPublicThread 0)) 10 25
      else MessagesBefore ?bad ex_server
        (Channel_ID (ex_channel 3 2 GuildPublicThread 0)) 10 25) =
      (ex_server, [], [], True, False, None)"
    by simp
  have lk: "guildFromReq ?bad ?r = ([CallCabinetGuild 1], Inr ex_guild)"
    "forumFromReq ?bad ?r = ([CallCabinetChannel 2], Inr (ex_channel 2 0 GuildForum 0))"
    "postFromReq ?bad ?r = ([CallStateChannel 3], Inr (ex_channel 3 2 GuildPublicThread 0))"
    by (simp_all add: lookups_MessagesAfter_update ex_guildFromReq ex_forumFromReq ex_postFromReq)
  from getPost_cursor_reads_in_bounds [OF ex_guildFromReq ex_forumFromReq ex_postFromReq
      ex_requestCursor good]
  have a: "fst (getPost ex_collab ex_server ?r) \<noteq> Panic"
    and b: "page_cursors [ex_message 11 7, ex_message 12 8] True False = Some (11, 0)"
    by (simp_all add: ex_message_def)
  from getPost_cursor_reads_in_bounds [OF lk ex_requestCursor bad]
  have c: "fst (getPost ?bad ex_server ?r) = Panic" by simp
  from a b c show ?thesis by (intro conjI)
qed

text \<open>
  The page operation modelled from the spec keeps that invariant: a flag is set only
  next to a message of the returned slice. With that cache, no request makes \<open>getPost\<close>
  panic.
\<close>

lemma window_flags_nonempty:
  "window xs cursor asc limit = (msgs, hasbefore, hasafter) \<Longrightarrow>
   (hasbefore \<longrightarrow> msgs \<noteq> []) \<and> (hasafter \<longrightarrow> msgs \<noteq> [])"
  by (auto simp add: window_def Let_def)

lemma page_flags_nonempty:
  "page rc s ch cursor asc limit = (s1, cs, msgs, hasbefore, hasafter, e) \<Longrightarrow>
   (hasbefore \<longrightarrow> msgs \<noteq> []) \<and> (hasafter \<longrightarrow> msgs \<noteq> [])"
  by (auto simp add: page_def split: prod.splits option.splits dest: window_flags_nonempty)

lemma getPost_no_panic:
  assumes "spec_cache rc d"
  shows "fst (getPost d s r) \<noteq> Panic"
proof -
  obtain c1 g where g: "guildFromReq d r = (c1, g)" by (cases "guildFromReq d r") auto
  obtain c2 f where f: "forumFromReq d r = (c2, f)" by (cases "forumFromReq d r") auto
  obtain c3 p where p: "postFromReq d r = (c3, p)" by (cases "postFromReq d r") auto
  show ?thesis
  proof (cases g)
    case (Inl a)
    with g show ?thesis by (cases a) (simp add: getPost_def)
  next
    case guild: (Inr guild)
    show ?thesis
    proof (cases f)
      case (Inl a)
      with g f guild show ?thesis by (cases a) (simp add: getPost_def)
    next
      case forum: (Inr forum)
      show ?thesis
      proof (cases p)
        case (Inl a)
        with g f p guild forum show ?thesis by (cases a) (simp add: getPost_def)
      next
        case post: (Inr post)
        note gfp = g [unfolded guild] f [unfolded forum] p [unfolded post]
        show ?thesis
        proof (cases "requestCursor r")
          case (Inl err)
          then show ?thesis using getPost_cursor_fails [OF gfp Inl, of s] by simp
        next
          case (Inr ca)
          obtain cur asc where ca: "ca = (cur, asc)" by (cases ca) auto
          obtain s1 c4 msgs hb ha err where
            pg: "(if asc then MessagesAfter d s (Channel_ID post) cur 25
                  else MessagesBefore d s (Channel_ID post) cur 25) = (s1, c4, msgs, hb, ha, err)"
            by (metis prod_cases6)
          then have "page rc s (Channel_ID post) cur asc 25 = (s1, c4, msgs, hb, ha, err)"
            by (simp only: spec_cache_page [OF assms])
          from page_flags_nonempty [OF this] have "hb \<longrightarrow> msgs \<noteq> []" by simp
          then have "page_cursors msgs hb ha \<noteq> None" by (simp add: page_cursors_None)
          then show ?thesis
            unfolding getPost_fetched [OF gfp Inr [unfolded ca] pg]
            by (auto split: option.splits prod.splits)
        qed
      qed
    qed
  qed
qed

section \<open>A failure of \<open>ensureMembers\<close>\<close>

text \<open>
  Claim C5, as amended. When \<open>ensureMembers\<close> fails with an error \<open>e\<close> in a request
  whose page of messages was fetched, \<open>getPost\<close> answers 500 with \<open>e\<close> wrapped as
  \<open>fetching post's members\<close> and returns: the failure is surfaced, and the post page
  is not rendered. This holds whatever \<open>ensureMembers\<close> and the cache do.
\<close>

theorem ensureMembers_failure_response:
  assumes "guildFromReq d r = (c1, Inr guild)"
    and "forumFromReq d r = (c2, Inr forum)"
    and "postFromReq d r = (c3, Inr post)"
    and "requestCursor r = Inr (cur, asc)"
    and "(if asc then MessagesAfter d s (Channel_ID post) cur 25
          else MessagesBefore d s (Channel_ID post) cur 25) =
         (s1, c4, msgs, hasbefore, hasafter, None)"
    and "hasbefore \<longrightarrow> msgs \<noteq> []"
    and "ensureMembers d s1 post msgs = (s2, c5, Some e)"
  shows "getPost d s r =
     (DisplayErr StatusInternalServerError (Some (Errorf ''fetching post's members: %w'' e)),
      s2, c1 @ c2 @ c3 @ c4 @ c5)"
  unfolding getPost_fetched [OF assms(1-5)]
  using assms(6,7) by (simp add: page_cursors_Some)

theorem ensureMembers_failure_response_witness:
  "getPost ex_collab (ex_server\<lparr>membersGot := {}\<rparr>) (ex_request ''1'' ''2'' ''3'' [] ''10'' []) =
     (DisplayErr StatusInternalServerError
        (Some (Errorf ''fetching post's members: %w''
           (ErrorString ''context deadline exceeded''))),
      ex_server\<lparr>membersGot := {}\<rparr>,
      [CallCabinetGuild 1, CallCabinetChannel 2, CallStateChannel 3, CallFetchMembers 1 [7, 8]])"
proof -
  have pg: "(if True then MessagesAfter ex_collab (ex_server\<lparr>membersGot := {}\<rparr>)
        (Channel_ID (ex_channel 3 2 GuildPublicThread 0)) 10 25
      else MessagesBefore ex_collab (ex_server\<lparr>membersGot := {}\<rparr>)
        (Channel_ID (ex_channel 3 2 GuildPublicThread 0)) 10 25) =
      (ex_server\<lparr>membersGot := {}\<rparr>, [], [ex_message 11 7, ex_message 12 8], True, False, None)"
    by (simp add: ex_MessagesAfter_unresolved ex_channel_def)
  have ne: "True \<longrightarrow> [ex_message 11 7, ex_message 12 8] \<noteq> []" by simp
  from ensureMembers_failure_response [OF ex_guildFromReq ex_forumFromReq ex_postFromReq
      ex_requestCursor pg ne ex_ensureMembers_fails]
  show ?thesis by simp
qed

text \<open>
  Claim C5 as first stated (the page is still rendered, with fallback identities)
  fails: with a REST client that times out on members, the request for the post page
  ends in the error page.
\<close>

theorem ensureMembers_failure_not_rendered:
  "snd (snd (ensureMembers ex_collab (ex_server\<lparr>membersGot := {}\<rparr>)
     (ex_channel 3 2 GuildPublicThread 0) [ex_message 11 7, ex_message 12 8])) =
     Some (ErrorString ''context deadline exceeded'') \<and>
   fst (getPost ex_collab (ex_server\<lparr>membersGot := {}\<rparr>)
     (ex_request ''1'' ''2'' ''3'' [] ''10'' [])) =
     DisplayErr StatusInternalServerError
       (Some (Errorf ''fetching post's members: %w''
          (ErrorString ''context deadline exceeded'')))"
proof -
  have pg: "(if True then MessagesAfter ex_collab (ex_server\<lparr>membersGot := {}\<rparr>)
        (Channel_ID (ex_channel 3 2 GuildPublicThread 0)) 10 25
      else MessagesBefore ex_collab (ex_server\<lparr>membersGot := {}\<rparr>)
        (Channel_ID (ex_channel 3 2 GuildPublicThread 0)) 10 25) =
      (ex_server\<lparr>membersGot := {}\<rparr>, [], [ex_message 11 7, ex_message 12 8], True, False, None)"
    by (simp add: ex_MessagesAfter_unresolved ex_channel_def)
  show ?thesis
    unfolding getPost_fetched [OF ex_guildFromReq ex_forumFromReq ex_postFromReq
        ex_requestCursor pg] ex_ensureMembers_fails
    by (simp add: page_cursors_def)
qed

section \<open>The gateway event handlers\<close>

text \<open>
  Claim C4. \<open>newServer\<close> registers three handlers. Together they make, on a
  message-create event, exactly the call \<open>Set\<close> with the message and \<open>false\<close>; on a
  message-update event exactly \<open>Set\<close> with the message and \<open>true\<close>; on a
  message-delete event exactly \<open>Remove\<close> with the channel and message identifiers of
  the event; on any other event no call on the cache.
\<close>

theorem handlers_map_events:
  "dispatch (snd (newServer cfg)) (MessageCreateEvent m) = [CacheSet m False] \<and>
   dispatch (snd (newServer cfg)) (MessageUpdateEvent m) = [CacheSet m True] \<and>
   dispatch (snd (newServer cfg)) (MessageDeleteEvent channelID messageID) =
     [CacheRemove channelID messageID] \<and>
   dispatch (snd (newServer cfg)) (OtherEvent name) = [] \<and>
   length (snd (newServer cfg)) = 3"
  by (simp add: newServer_def registered_def dispatch_def
      onMessageCreate_def onMessageUpdate_def onMessageDelete_def)

theorem handlers_map_events_witness:
  "dispatch (snd (newServer \<lparr>SiteURL = [], ServiceName = [], ServerHostedIn = []\<rparr>))
     (MessageUpdateEvent (ex_message 11 7)) = [CacheSet (ex_message 11 7) True] \<and>
   dispatch (snd (newServer \<lparr>SiteURL = [], ServiceName = [], ServerHostedIn = []\<rparr>))
     (MessageDeleteEvent 3 11) = [CacheRemove 3 11]"
  using handlers_map_events [of "\<lparr>SiteURL = [], ServiceName = [], ServerHostedIn = []\<rparr>"
      "ex_message 11 7" 3 11 "[]"]
  by (elim conjE) (intro conjI, assumption+)

text \<open>The server after an event differs from the one before by that one call.\<close>

lemma dispatch_registered:
  "dispatch registered (MessageCreateEvent m) = [CacheSet m False]"
  "dispatch registered (MessageUpdateEvent m) = [CacheSet m True]"
  "dispatch registered (MessageDeleteEvent ch mid) = [CacheRemove ch mid]"
  "dispatch registered (OtherEvent name) = []"
  by (simp_all add: registered_def dispatch_def onMessageCreate_def onMessageUpdate_def
      onMessageDelete_def)

lemma handleEvent_registered:
  "handleEvent registered s (MessageCreateEvent m) =
     s\<lparr>messageCache := messageCache_Set m False (messageCache s)\<rparr>"
  "handleEvent registered s (MessageUpdateEvent m) =
     s\<lparr>messageCache := messageCache_Set m True (messageCache s)\<rparr>"
  "handleEvent registered s (MessageDeleteEvent ch mid) =
     s\<lparr>messageCache := messageCache_Remove ch mid (messageCache s)\<rparr>"
  "handleEvent registered s (OtherEvent name) = s"
  by (simp_all add: handleEvent_def dispatch_registered)

section \<open>The message groups\<close>

text \<open>
  The loop keeps \<open>i\<close> at the index of the last group, so \<open>msgrps[i]\<close> is in range
  whenever it is read. A message either opens a new group or extends the last one.
\<close>

lemma group_step_new:
  assumes "gs = [] \<or> Author_ID (Group_Author (last gs)) \<noteq> User_ID (Message_Author x)"
  shows "group_step sm sa gid (gs, int (length gs) - 1) x =
     (gs @ [\<lparr>Group_Author = sa (x\<lparr>Message_GuildID := gid\<rparr>),
              Group_Messages = [sm (x\<lparr>Message_GuildID := gid\<rparr>)]\<rparr>],
      int (length (gs @ [g0])) - 1)"
proof (cases "gs = []")
  case True
  then show ?thesis by (simp add: group_step_def Let_def)
next
  case False
  then have "nat (int (length gs) - 1) = length gs - 1" "int (length gs) - 1 \<noteq> - 1"
    by (simp_all add: nat_diff_distrib')
  with False assms show ?thesis
    by (simp add: group_step_def Let_def last_conv_nth)
qed

lemma group_step_extend:
  assumes "Author_ID (Group_Author g) = User_ID (Message_Author x)"
  shows "group_step sm sa gid (gs @ [g], int (length (gs @ [g])) - 1) x =
     (gs @ [g\<lparr>Group_Messages := Group_Messages g @ [sm (x\<lparr>Message_GuildID := gid\<rparr>)]\<rparr>],
      int (length (gs @ [g])) - 1)"
  using assms by (simp add: group_step_def Let_def)

lemma group_loop_invariant:
  assumes "\<forall>m \<in> set msgs.
     Author_ID (sa (m\<lparr>Message_GuildID := gid\<rparr>)) = User_ID (Message_Author m)"
  shows "\<exists>gs runs.
     foldl (group_step sm sa gid) ([], - 1) msgs = (gs, int (length gs) - 1) \<and>
     concat runs = map (\<lambda>m. m\<lparr>Message_GuildID := gid\<rparr>) msgs \<and>
     list_all2 (group_of_run sm) gs runs \<and>
     distinct_adj (map (\<lambda>g. Author_ID (Group_Author g)) gs)"
  using assms
proof (induction msgs rule: rev_induct)
  case Nil
  show ?case by (rule exI [of _ "[]"], rule exI [of _ "[]"]) simp
next
  case (snoc x xs)
  then obtain gs runs where
    loop: "foldl (group_step sm sa gid) ([], - 1) xs = (gs, int (length gs) - 1)"
    and cat: "concat runs = map (\<lambda>m. m\<lparr>Message_GuildID := gid\<rparr>) xs"
    and rel: "list_all2 (group_of_run sm) gs runs"
    and adj: "distinct_adj (map (\<lambda>g. Author_ID (Group_Author g)) gs)"
    by auto
  from snoc.prems have auth: "Author_ID (sa (x\<lparr>Message_GuildID := gid\<rparr>)) = User_ID (Message_Author x)"
    by simp
  let ?m = "x\<lparr>Message_GuildID := gid\<rparr>"
  show ?case
  proof (cases "gs = [] \<or> Author_ID (Group_Author (last gs)) \<noteq> User_ID (Message_Author x)")
    case True
    let ?g = "\<lparr>Group_Author = sa ?m, Group_Messages = [sm ?m]\<rparr>"
    have step: "foldl (group_step sm sa gid) ([], - 1) (xs @ [x]) =
        (gs @ [?g], int (length (gs @ [?g])) - 1)"
      using group_step_new [OF True, of sm sa gid ?g] by (simp add: loop)
    have "concat (runs @ [[?m]]) = map (\<lambda>m. m\<lparr>Message_GuildID := gid\<rparr>) (xs @ [x])"
      by (simp add: cat)
    moreover have "list_all2 (group_of_run sm) (gs @ [?g]) (runs @ [[?m]])"
      using rel by (simp add: list_all2_appendI group_of_run_def auth)
    moreover have "distinct_adj (map (\<lambda>g. Author_ID (Group_Author g)) (gs @ [?g]))"
      using adj True by (auto simp add: distinct_adj_append_iff auth last_map)
    ultimately show ?thesis using step by blast
  next
    case False
    then obtain gs0 g where gs: "gs = gs0 @ [g]"
      and same: "Author_ID (Group_Author g) = User_ID (Message_Author x)"
      by (cases gs rule: rev_cases) auto
    from rel gs obtain runs0 ms where runs: "runs = runs0 @ [ms]"
      and rel0: "list_all2 (group_of_run sm) gs0 runs0" and g: "group_of_run sm g ms"
      by (auto simp add: list_all2_append1 length_Suc_conv)
    let ?g = "g\<lparr>Group_Messages := Group_Messages g @ [sm ?m]\<rparr>"
    have step: "foldl (group_step sm sa gid) ([], - 1) (xs @ [x]) =
        (gs0 @ [?g], int (length (gs0 @ [?g])) - 1)"
      using group_step_extend [OF same, of sm sa gid gs0] by (simp add: loop gs)
    have "concat (runs0 @ [ms @ [?m]]) = map (\<lambda>m. m\<lparr>Message_GuildID := gid\<rparr>) (xs @ [x])"
      using cat by (simp add: runs)
    moreover have "list_all2 (group_of_run sm) (gs0 @ [?g]) (runs0 @ [ms @ [?m]])"
      using rel0 g same by (simp add: list_all2_appendI group_of_run_def)
    moreover have "distinct_adj (map (\<lambda>g. Author_ID (Group_Author g)) (gs0 @ [?g]))"
      using adj by (simp add: gs)
    ultimately show ?thesis using step by blast
  qed
qed

lemma concat_group_messages:
  "list_all2 (group_of_run sm) gs runs \<Longrightarrow> concat (map Group_Messages gs) = map sm (concat runs)"
  by (induction gs runs rule: list_all2_induct) (simp_all add: group_of_run_def)

lemma group_loop_concat:
  "\<exists>gs. foldl (group_step sm sa gid) ([], - 1) msgs = (gs, int (length gs) - 1) \<and>
     concat (map Group_Messages gs) = map (\<lambda>m. sm (m\<lparr>Message_GuildID := gid\<rparr>)) msgs"
proof (induction msgs rule: rev_induct)
  case Nil
  show ?case by simp
next
  case (snoc x xs)
  then obtain gs where
    loop: "foldl (group_step sm sa gid) ([], - 1) xs = (gs, int (length gs) - 1)"
    and cat: "concat (map Group_Messages gs) = map (\<lambda>m. sm (m\<lparr>Message_GuildID := gid\<rparr>)) xs"
    by auto
  show ?case
  proof (cases "gs = [] \<or> Author_ID (Group_Author (last gs)) \<noteq> User_ID (Message_Author x)")
    case True
    let ?g = "\<lparr>Group_Author = sa (x\<lparr>Message_GuildID := gid\<rparr>),
               Group_Messages = [sm (x\<lparr>Message_GuildID := gid\<rparr>)]\<rparr>"
    have "foldl (group_step sm sa gid) ([], - 1) (xs @ [x]) =
        (gs @ [?g], int (length (gs @ [?g])) - 1)"
      using group_step_new [OF True, of sm sa gid ?g] by (simp add: loop)
    moreover have "concat (map Group_Messages (gs @ [?g])) =
        map (\<lambda>m. sm (m\<lparr>Message_GuildID := gid\<rparr>)) (xs @ [x])"
      by (simp add: cat)
    ultimately show ?thesis by blast
  next
    case False
    then obtain gs0 g where gs: "gs = gs0 @ [g]"
      and same: "Author_ID (Group_Author g) = User_ID (Message_Author x)"
      by (cases gs rule: rev_cases) auto
    let ?g = "g\<lparr>Group_Messages := Group_Messages g @ [sm (x\<lparr>Message_GuildID := gid\<rparr>)]\<rparr>"
    have "foldl (group_step sm sa gid) ([], - 1) (xs @ [x]) =
        (gs0 @ [?g], int (length (gs0 @ [?g])) - 1)"
      using group_step_extend [OF same, of sm sa gid gs0] by (simp add: loop gs)
    moreover have "concat (map Group_Messages (gs0 @ [?g])) =
        map (\<lambda>m. sm (m\<lparr>Message_GuildID := gid\<rparr>)) (xs @ [x])"
      using cat by (simp add: gs)
    ultimately show ?thesis by blast
  qed
qed

lemma groupMessages_concat:
  "concat (map Group_Messages (groupMessages sm sa gid msgs)) =
   map (\<lambda>m. sm (m\<lparr>Message_GuildID := gid\<rparr>)) msgs"
  using group_loop_concat [of sm sa gid msgs] by (auto simp add: groupMessages_def)

text \<open>
  Claim C3. Provided \<open>s.author\<close> gives an author the identifier of the message's
  author, the groups partition the page into maximal runs of one author: there are
  runs, one per group and none empty, whose concatenation is the page (with the guild
  identifier set, as the loop does), each group holds its run's messages in order, every
  message of a run has the author identifier of its group, and adjacent groups have
  different author identifiers. In particular the groups' messages, concatenated, are
  the page's messages in order.
\<close>

theorem groupMessages_partition:
  assumes "\<forall>m \<in> set msgs.
     Author_ID (s_author (m\<lparr>Message_GuildID := guildID\<rparr>)) = User_ID (Message_Author m)"
  shows "\<exists>runs.
     concat runs = map (\<lambda>m. m\<lparr>Message_GuildID := guildID\<rparr>) msgs \<and>
     list_all2 (group_of_run s_message) (groupMessages s_message s_author guildID msgs) runs \<and>
     concat (map Group_Messages (groupMessages s_message s_author guildID msgs)) =
       map (\<lambda>m. s_message (m\<lparr>Message_GuildID := guildID\<rparr>)) msgs \<and>
     distinct_adj (map (\<lambda>g. Author_ID (Group_Author g))
       (groupMessages s_message s_author guildID msgs))"
proof -
  from group_loop_invariant [OF assms, of s_message] obtain gs runs where
    loop: "foldl (group_step s_message s_author guildID) ([], - 1) msgs = (gs, int (length gs) - 1)"
    and cat: "concat runs = map (\<lambda>m. m\<lparr>Message_GuildID := guildID\<rparr>) msgs"
    and rel: "list_all2 (group_of_run s_message) gs runs"
    and adj: "distinct_adj (map (\<lambda>g. Author_ID (Group_Author g)) gs)"
    by blast
  have gs: "groupMessages s_message s_author guildID msgs = gs"
    by (simp add: groupMessages_def loop)
  have "concat (map Group_Messages gs) =
      map (\<lambda>m. s_message (m\<lparr>Message_GuildID := guildID\<rparr>)) msgs"
    using concat_group_messages [OF rel] by (simp add: cat)
  with cat rel adj show ?thesis unfolding gs by blast
qed

theorem groupMessages_partition_witness:
  "concat (map Group_Messages
     (groupMessages Message_ID ex_author 1 [ex_message 10 7, ex_message 11 7, ex_message 12 8])) =
     [10, 11, 12] \<and>
   distinct_adj (map (\<lambda>g. Author_ID (Group_Author g))
     (groupMessages Message_ID ex_author 1 [ex_message 10 7, ex_message 11 7, ex_message 12 8]))"
proof -
  have "\<forall>m \<in> set [ex_message 10 7, ex_message 11 7, ex_message 12 8].
      Author_ID (ex_author (m\<lparr>Message_GuildID := 1\<rparr>)) = User_ID (Message_Author m)"
    by (simp add: ex_author_def)
  from groupMessages_partition [OF this, of Message_ID] show ?thesis
    by (auto simp add: ex_message_def)
qed

section \<open>The posts of a forum page\<close>

text \<open>
  The loop of \<open>getForum\<close> collects the public threads of the forum in the order of
  the channel list. The sort runs on \<open>ctx.Posts\<close>, which is empty at that point.
\<close>

lemma collectPosts_foldl:
  "foldl (\<lambda>posts thread.
            if Channel_ParentID thread \<noteq> Channel_ID forum \<or>
               Channel_Type thread \<noteq> GuildPublicThread
            then posts
            else posts @ [post_of_thread forum thread]) acc chans =
   acc @ map (post_of_thread forum)
     (filter (\<lambda>t. Channel_ParentID t = Channel_ID forum \<and> Channel_Type t = GuildPublicThread)
        chans)"
  by (induction chans arbitrary: acc) simp_all

lemma collectPosts_eq:
  "collectPosts forum chans =
   map (post_of_thread forum)
     (filter (\<lambda>t. Channel_ParentID t = Channel_ID forum \<and> Channel_Type t = GuildPublicThread)
        chans)"
  using collectPosts_foldl [of forum "[]" chans] by (simp add: collectPosts_def)

lemma Post_Channel_collectPosts:
  "map Post_Channel (collectPosts forum chans) =
   filter (\<lambda>t. Channel_ParentID t = Channel_ID forum \<and> Channel_Type t = GuildPublicThread) chans"
  by (simp add: collectPosts_eq post_of_thread_def comp_def)

lemma SliceStable_Nil: "SliceStable lt [] = []"
  by (simp add: SliceStable_def)

lemma slice_Some: "slice xs lo hi = Some ys \<Longrightarrow> ys = take (nat (hi - lo)) (drop (nat lo) xs)"
  by (simp add: slice_def split: if_splits)

lemma getForum_found:
  assumes "guildFromReq d r = (c1, Inr guild)"
    and "forumFromReq d r = (c2, Inr forum)"
    and "channels d (Guild_ID guild) = Inr chans"
  shows "getForum d s r =
     (let ctx = \<lparr>fctx_Guild = guild, fctx_Forum = forum, fctx_Posts = [],
                 fctx_Prev = 0, fctx_Next = 0, fctx_URL = URL s\<rparr>;
          cs = c1 @ c2 @ [CallChannels (Guild_ID guild)];
          posts = collectPosts forum chans;
          ctx = ctx\<lparr>fctx_Posts := SliceStable posts_less (fctx_Posts ctx)\<rparr>;
          pg = (case Atoi (param_page r) of
                  Inl err \<Rightarrow> 1
                | Inr p \<Rightarrow> if p < 1 then 1 else p);
          ctx = (if pg > 1 then ctx\<lparr>fctx_Prev := pg - 1\<rparr> else ctx)
      in if int (length posts) > int64 (pg * 25)
         then (case slice posts (int64 ((pg - 1) * 25)) (int64 (pg * 25)) of
                 None \<Rightarrow> (Panic, cs)
               | Some posts' \<Rightarrow>
                   (ExecuteTemplate ''forum.gohtml''
                      (ctx\<lparr>fctx_Next := int64 (pg + 1), fctx_Posts := posts'\<rparr>), cs))
         else if int (length posts) \<ge> int64 ((pg - 1) * 25)
         then (case slice posts (int64 ((pg - 1) * 25)) (int (length posts)) of
                 None \<Rightarrow> (Panic, cs)
               | Some posts' \<Rightarrow>
                   (ExecuteTemplate ''forum.gohtml'' (ctx\<lparr>fctx_Posts := posts'\<rparr>), cs))
         else (ExecuteTemplate ''forum.gohtml'' (ctx\<lparr>fctx_Posts := []\<rparr>), cs))"
  by (simp only: getForum_def assms prod.case sum.case Let_def)

lemma ex_channels: "channels ex_collab (Guild_ID ex_guild) =
   Inr [ex_channel 2 0 GuildForum 0, ex_channel 3 2 GuildPublicThread 0,
        ex_channel 4 2 GuildPublicThread 2, ex_channel 5 9 GuildPublicThread 0]"
  by (simp add: ex_collab_def)

lemma ex_collectPosts:
  "collectPosts (ex_channel 2 0 GuildForum 0)
     [ex_channel 2 0 GuildForum 0, ex_channel 3 2 GuildPublicThread 0,
      ex_channel 4 2 GuildPublicThread 2, ex_channel 5 9 GuildPublicThread 0] =
   [\<lparr>Post_Channel = ex_channel 3 2 GuildPublicThread 0, Post_Tags = []\<rparr>,
    \<lparr>Post_Channel = ex_channel 4 2 GuildPublicThread 2, Post_Tags = []\<rparr>]"
  by (simp add: collectPosts_eq post_of_thread_def ex_channel_def)

lemma ex_getForum:
  "getForum ex_collab ex_server (ex_request ''1'' ''2'' [] [] [] []) =
   (ExecuteTemplate ''forum.gohtml''
      \<lparr>fctx_Guild = ex_guild, fctx_Forum = ex_channel 2 0 GuildForum 0,
       fctx_Posts = [\<lparr>Post_Channel = ex_channel 3 2 GuildPublicThread 0, Post_Tags = []\<rparr>,
                     \<lparr>Post_Channel = ex_channel 4 2 GuildPublicThread 2, Post_Tags = []\<rparr>],
       fctx_Prev = 0, fctx_Next = 0, fctx_URL = ''https://forum.example''\<rparr>,
    [CallCabinetGuild 1, CallCabinetChannel 2, CallChannels 1])"
  unfolding getForum_found [OF ex_guildFromReq ex_forumFromReq ex_channels] ex_collectPosts
  by (simp add: ex_request_def Atoi_def int64_def slice_def ex_guild_def ex_server_def)

text \<open>
  Claim C9. When \<open>getForum\<close> renders a page, its posts are a contiguous part of the
  collected posts, in their order, and the collected posts are the channels of the
  list that have the forum as parent and are public threads, in the order of the list.
  No ordering by pin or by last activity is applied.
\<close>

theorem getForum_posts_in_collection_order:
  assumes "guildFromReq d r = (c1, Inr guild)"
    and "forumFromReq d r = (c2, Inr forum)"
    and "channels d (Guild_ID guild) = Inr chans"
    and "getForum d s r = (ExecuteTemplate name ctx, cs)"
  shows "(\<exists>lo n. fctx_Posts ctx = take n (drop lo (collectPosts forum chans))) \<and>
         map Post_Channel (collectPosts forum chans) =
           filter (\<lambda>t. Channel_ParentID t = Channel_ID forum \<and>
                        Channel_Type t = GuildPublicThread) chans"
proof -
  have sl: "\<exists>lo n. ys = take n (drop lo (collectPosts forum chans))"
    if "slice (collectPosts forum chans) a b = Some ys" for a b ys
    using slice_Some [OF that] by blast
  have nil: "\<exists>lo n. [] = take n (drop lo (collectPosts forum chans))"
    by (rule exI [of _ 0], rule exI [of _ 0]) simp
  have "\<exists>lo n. fctx_Posts ctx = take n (drop lo (collectPosts forum chans))"
    using assms(4) [unfolded getForum_found [OF assms(1-3)] Let_def] sl nil
    by (auto split: if_splits option.splits)
  then show ?thesis by (simp add: Post_Channel_collectPosts)
qed

theorem getForum_posts_in_collection_order_witness:
  "map (\<lambda>p. Channel_ID (Post_Channel p))
     (case fst (getForum ex_collab ex_server (ex_request ''1'' ''2'' [] [] [] [])) of
        ExecuteTemplate name ctx \<Rightarrow> fctx_Posts ctx | _ \<Rightarrow> []) = [3, 4] \<and>
   map Post_Channel (collectPosts (ex_channel 2 0 GuildForum 0)
     [ex_channel 2 0 GuildForum 0, ex_channel 3 2 GuildPublicThread 0,
      ex_channel 4 2 GuildPublicThread 2, ex_channel 5 9 GuildPublicThread 0]) =
   [ex_channel 3 2 GuildPublicThread 0, ex_channel 4 2 GuildPublicThread 2]"
  using getForum_posts_in_collection_order [OF ex_guildFromReq ex_forumFromReq ex_channels ex_getForum]
  by (simp add: ex_getForum ex_channel_def)

section \<open>The page number\<close>

text \<open>
  For a page number whose product with 25 fits 64 bits, \<open>getForum\<close> renders the
  posts \<open>(p-1)*25\<close> to \<open>p*25\<close> of the collected list (fewer at the end, none
  beyond it), sets \<open>Prev\<close> when \<open>p > 1\<close> and \<open>Next\<close> when more posts follow. A
  missing, non-numeric or smaller page number counts as 1.
\<close>

lemma int64_id: "- (2 ^ 63) \<le> x \<Longrightarrow> x < 2 ^ 63 \<Longrightarrow> int64 x = x"
  by (simp add: int64_def)

lemma page_param_ge_1:
  "1 \<le> (case Atoi str of Inl err \<Rightarrow> 1 | Inr p \<Rightarrow> if p < 1 then (1::int) else p)"
  by (simp split: sum.splits)

lemma getForum_page_in_range:
  assumes "guildFromReq d r = (c1, Inr guild)"
    and "forumFromReq d r = (c2, Inr forum)"
    and "channels d (Guild_ID guild) = Inr chans"
    and pg: "pg = (case Atoi (param_page r) of Inl err \<Rightarrow> 1 | Inr p \<Rightarrow> if p < 1 then 1 else p)"
    and range: "pg * 25 < 2 ^ 63"
  shows "getForum d s r =
     (ExecuteTemplate ''forum.gohtml''
        \<lparr>fctx_Guild = guild, fctx_Forum = forum,
         fctx_Posts = take 25 (drop (nat ((pg - 1) * 25)) (collectPosts forum chans)),
         fctx_Prev = (if pg > 1 then pg - 1 else 0),
         fctx_Next = (if int (length (collectPosts forum chans)) > pg * 25 then pg + 1 else 0),
         fctx_URL = URL s\<rparr>,
      c1 @ c2 @ [CallChannels (Guild_ID guild)])"
proof -
  have ge: "1 \<le> pg" unfolding pg by (rule page_param_ge_1)
  have hi: "int64 (pg * 25) = pg * 25" using ge range by (intro int64_id) auto
  have lo: "int64 ((pg - 1) * 25) = (pg - 1) * 25" using ge range by (intro int64_id) auto
  have nx: "int64 (pg + 1) = pg + 1" using ge range by (intro int64_id) auto
  have lo0: "0 \<le> (pg - 1) * 25" using ge by simp
  let ?posts = "collectPosts forum chans"
  consider (more) "int (length ?posts) > pg * 25"
    | (last) "int (length ?posts) \<le> pg * 25" "(pg - 1) * 25 \<le> int (length ?posts)"
    | (beyond) "int (length ?posts) < (pg - 1) * 25"
    by linarith
  then show ?thesis
  proof cases
    case more
    then have "slice ?posts ((pg - 1) * 25) (pg * 25) =
        Some (take 25 (drop (nat ((pg - 1) * 25)) ?posts))"
      using lo0 by (simp add: slice_def algebra_simps)
    with more show ?thesis
      unfolding getForum_found [OF assms(1-3)] Let_def pg [symmetric] hi lo nx
      by (simp add: SliceStable_Nil)
  next
    case last
    then have "slice ?posts ((pg - 1) * 25) (int (length ?posts)) =
        Some (take 25 (drop (nat ((pg - 1) * 25)) ?posts))"
      using lo0 by (simp add: slice_def)
    with last show ?thesis
      unfolding getForum_found [OF assms(1-3)] Let_def pg [symmetric] hi lo nx
      by (simp add: SliceStable_Nil)
  next
    case beyond
    then have "take 25 (drop (nat ((pg - 1) * 25)) ?posts) = []" by simp
    with beyond show ?thesis
      unfolding getForum_found [OF assms(1-3)] Let_def pg [symmetric] hi lo nx
      by (simp add: SliceStable_Nil)
  qed
qed

text \<open>
  Claim C10 fails for larger page numbers. \<open>368934881474191033\<close> is accepted by
  \<open>Atoi\<close>, its product with 25 wraps to a negative number, the test
  \<open>len(posts) > page*25\<close> succeeds, and the slice expression
  \<open>posts[(page-1)*25 : page*25]\<close> panics.
\<close>

theorem getForum_page_overflow:
  "getForum ex_collab ex_server (ex_request ''1'' ''2'' [] ''368934881474191033'' [] []) =
   (Panic, [CallCabinetGuild 1, CallCabinetChannel 2, CallChannels 1])"
  unfolding getForum_found [OF ex_guildFromReq ex_forumFromReq ex_channels] ex_collectPosts
  by (simp add: ex_request_def Atoi_def digit_of_def int64_def slice_def ex_guild_def)

section \<open>Member resolution, twice\<close>

text \<open>
  Claim C6. With the member resolution of the spec: when a call of \<open>ensureMembers\<close>
  succeeds, the channel is recorded in \<open>membersGot\<close>, and a second call for the same
  channel and messages right after it makes no call to the REST client, succeeds and
  leaves the server as it is: the two calls together fetch members at most once.
\<close>

theorem ensureMembers_twice_one_fetch:
  assumes "spec_ensureMembers rc s post msgs = (s1, cs1, None)"
    and "spec_ensureMembers rc s1 post msgs = (s2, cs2, e2)"
  shows "cs2 = [] \<and> e2 = None \<and> s2 = s1 \<and> length (cs1 @ cs2) \<le> 1 \<and>
         Channel_ID post \<in> membersGot s1"
proof -
  have got: "Channel_ID post \<in> membersGot s1" and one: "length cs1 \<le> 1"
    using assms(1)
    by (auto simp add: spec_ensureMembers_def Let_def split: if_splits sum.splits)
  then show ?thesis using assms(2) by (auto simp add: spec_ensureMembers_def)
qed

lemma ex_ensureMembers_first:
  "spec_ensureMembers (ex_rest\<lparr>fetchMembers := ex_members\<rparr>) (ex_server\<lparr>membersGot := {}\<rparr>)
     (ex_channel 3 2 GuildPublicThread 0) [ex_message 11 7, ex_message 12 8] =
   (fst (spec_ensureMembers (ex_rest\<lparr>fetchMembers := ex_members\<rparr>)
          (ex_server\<lparr>membersGot := {}\<rparr>)
          (ex_channel 3 2 GuildPublicThread 0) [ex_message 11 7, ex_message 12 8]),
    [CallFetchMembers 1 [7, 8]], None)"
  by (simp add: spec_ensureMembers_def ex_server_def ex_channel_def ex_message_def
      ex_members_def)

theorem ensureMembers_twice_one_fetch_witness:
  "fst (snd (spec_ensureMembers (ex_rest\<lparr>fetchMembers := ex_members\<rparr>)
     (fst (spec_ensureMembers (ex_rest\<lparr>fetchMembers := ex_members\<rparr>)
        (ex_server\<lparr>membersGot := {}\<rparr>)
        (ex_channel 3 2 GuildPublicThread 0) [ex_message 11 7, ex_message 12 8]))
     (ex_channel 3 2 GuildPublicThread 0) [ex_message 11 7, ex_message 12 8])) = [] \<and>
   fst (snd (spec_ensureMembers (ex_rest\<lparr>fetchMembers := ex_members\<rparr>)
     (ex_server\<lparr>membersGot := {}\<rparr>)
     (ex_channel 3 2 GuildPublicThread 0) [ex_message 11 7, ex_message 12 8])) =
     [CallFetchMembers 1 [7, 8]]"
proof -
  let ?rc = "ex_rest\<lparr>fetchMembers := ex_members\<rparr>"
  let ?post = "ex_channel 3 2 GuildPublicThread 0"
  let ?msgs = "[ex_message 11 7, ex_message 12 8]"
  let ?s1 = "fst (spec_ensureMembers ?rc (ex_server\<lparr>membersGot := {}\<rparr>) ?post ?msgs)"
  have second: "spec_ensureMembers ?rc ?s1 ?post ?msgs =
      (fst (spec_ensureMembers ?rc ?s1 ?post ?msgs),
       fst (snd (spec_ensureMembers ?rc ?s1 ?post ?msgs)),
       snd (snd (spec_ensureMembers ?rc ?s1 ?post ?msgs)))"
    by simp
  have first_calls:
    "fst (snd (spec_ensureMembers ?rc (ex_server\<lparr>membersGot := {}\<rparr>) ?post ?msgs)) =
      [CallFetchMembers 1 [7, 8]]"
    by (simp add: spec_ensureMembers_def ex_server_def ex_channel_def ex_message_def
        ex_members_def)
  from ensureMembers_twice_one_fetch [OF ex_ensureMembers_first second] first_calls
  show ?thesis by (elim conjE) (intro conjI, assumption+)
qed

section \<open>Inactive channels\<close>

text \<open>
  A page call fetches history for its own channel only, and for none that is recorded
  in \<open>fetchedInactive\<close>; nothing removes a channel from \<open>fetchedInactive\<close>.
\<close>

lemma backfill_inactive:
  "ch \<in> fetchedInactive s \<Longrightarrow> backfill rc s ch cursor asc limit = (s, [], None)"
  by (simp add: backfill_def backfillState_def)

lemma backfill_keeps_inactive:
  "backfill rc s ch' cursor asc limit = (s1, cs, e) \<Longrightarrow>
   fetchedInactive s \<subseteq> fetchedInactive s1 \<and> (ch' \<noteq> ch \<longrightarrow> history_fetches ch cs = [])"
  by (auto simp add: backfill_def backfillState_def merged_def Let_def history_fetches_def
      split: if_splits sum.splits BackfillState.splits)

lemma page_inactive:
  "ch \<in> fetchedInactive s \<Longrightarrow>
   page rc s ch cursor asc limit =
     (s, [], fst (window (store (messageCache s) ch) cursor asc limit),
      fst (snd (window (store (messageCache s) ch) cursor asc limit)),
      snd (snd (window (store (messageCache s) ch) cursor asc limit)), None)"
  by (simp add: page_def backfill_inactive split: prod.splits)

lemma page_keeps_inactive:
  assumes "page rc s ch' cursor asc limit = (s1, cs, res)" and "ch \<in> fetchedInactive s"
  shows "ch \<in> fetchedInactive s1 \<and> history_fetches ch cs = []"
proof -
  obtain s1' cs' e where b: "backfill rc s ch' cursor asc limit = (s1', cs', e)"
    by (cases "backfill rc s ch' cursor asc limit") auto
  with assms(1) have eq: "s1 = s1'" "cs = cs'"
    by (auto simp add: page_def split: option.splits prod.splits)
  show ?thesis
  proof (cases "ch' = ch")
    case True
    with assms(2) b show ?thesis unfolding eq by (simp add: backfill_inactive history_fetches_def)
  next
    case False
    with backfill_keeps_inactive [OF b, of ch] assms(2) show ?thesis unfolding eq by auto
  qed
qed

lemma ensureMembers_keeps_inactive:
  "spec_ensureMembers rc s post msgs = (s1, cs, e) \<Longrightarrow>
   fetchedInactive s1 = fetchedInactive s \<and> history_fetches ch cs = []"
  by (auto simp add: spec_ensureMembers_def Let_def history_fetches_def
      split: if_splits sum.splits)

lemma getPost_keeps_inactive:
  assumes spec: "spec_cache rc d"
    and run: "getPost d s r = (out, s', cs)" and inactive: "ch \<in> fetchedInactive s"
  shows "ch \<in> fetchedInactive s' \<and> history_fetches ch cs = []"
proof
  show "ch \<in> fetchedInactive s'"
  proof (rule getPost_keeps [OF run, where P = "\<lambda>s. ch \<in> fetchedInactive s"])
    show "ch \<in> fetchedInactive s" by (rule inactive)
  next
    fix post :: Channel and cur asc s1 c4 res
    assume "(if asc then MessagesAfter d s (Channel_ID post) cur 25
       else MessagesBefore d s (Channel_ID post) cur 25) = (s1, c4, res)"
    then have "page rc s (Channel_ID post) cur asc 25 = (s1, c4, res)"
      by (simp only: spec_cache_page [OF spec])
    from page_keeps_inactive [OF this inactive] show "ch \<in> fetchedInactive s1" by simp
  next
    fix s1 :: server and post msgs s2 c5 e
    assume "ch \<in> fetchedInactive s1" "ensureMembers d s1 post msgs = (s2, c5, e)"
    then show "ch \<in> fetchedInactive s2"
      using ensureMembers_keeps_inactive [of rc s1 post msgs s2 c5 e ch]
      by (simp add: spec_cache_ensureMembers [OF spec])
  qed
  show "history_fetches ch cs = []"
  proof (rule getPost_calls [OF run])
    fix post :: Channel and cur asc s1 c4 res
    assume "(if asc then MessagesAfter d s (Channel_ID post) cur 25
       else MessagesBefore d s (Channel_ID post) cur 25) = (s1, c4, res)"
    then have "page rc s (Channel_ID post) cur asc 25 = (s1, c4, res)"
      by (simp only: spec_cache_page [OF spec])
    from page_keeps_inactive [OF this inactive] show "history_fetches ch c4 = []" by simp
  next
    fix s1 :: server and post msgs s2 c5 e
    assume "ensureMembers d s1 post msgs = (s2, c5, e)"
    then show "history_fetches ch c5 = []"
      using ensureMembers_keeps_inactive [of rc s1 post msgs s2 c5 e ch]
      by (simp add: spec_cache_ensureMembers [OF spec])
  qed
qed

lemma handleEvent_fetchedInactive [simp]:
  "fetchedInactive (handleEvent hs s ev) = fetchedInactive s"
  by (simp add: handleEvent_def)

lemma step_keeps_inactive:
  assumes "spec_cache rc d" and "step rc d s x = (s1, cs)" and "ch \<in> fetchedInactive s"
  shows "ch \<in> fetchedInactive s1 \<and> history_fetches ch cs = []"
proof (cases x)
  case (OpPage ch' cursor asc limit)
  with assms(2,3) show ?thesis
    by (auto split: prod.splits dest: page_keeps_inactive)
next
  case (OpGetPost r)
  with assms(2,3) show ?thesis
    by (auto split: prod.splits dest: getPost_keeps_inactive [OF assms(1)])
next
  case (OpEvent ev)
  with assms(2,3) show ?thesis by (auto simp add: history_fetches_def)
qed

lemma ex_reach_inactive:
  "run (ex_rest\<lparr>archived := \<lambda>c. True\<rparr>) d
     (fst (newServer \<lparr>SiteURL = [], ServiceName = [], ServerHostedIn = []\<rparr>))
     [OpPage 3 0 True 25] =
   (\<lparr>messageCache = \<lparr>store = (\<lambda>c. []), complete = {}\<rparr>, fetchedInactive = {3},
     membersGot = {}, memberRecords = (\<lambda>k. None), URL = []\<rparr>,
    [CallFetchHistory 3 0 True 25])"
  by (simp add: newServer_def newMessageCache_def page_def backfill_def backfillState_def
      ex_rest_def merged_def merge_def window_def Let_def fun_upd_def)

text \<open>
  Claim C2. With the cache of the spec: once a channel is recorded in
  \<open>fetchedInactive\<close>, no run of the server (page calls with any cursor and direction
  for any channel, post page requests, gateway events) makes a history fetch for that
  channel; the channel stays recorded and its state stays Inactive. A page call for it
  makes no call at all.
\<close>

theorem inactive_channel_never_fetched:
  assumes "spec_cache rc d" and "channelID \<in> fetchedInactive s"
  shows "history_fetches channelID (snd (run rc d s ops)) = [] \<and>
         channelID \<in> fetchedInactive (fst (run rc d s ops)) \<and>
         backfillState (fst (run rc d s ops)) channelID = Inactive \<and>
         fst (snd (page rc s channelID cursor asc limit)) = []"
proof -
  have "history_fetches channelID (snd (run rc d s ops)) = [] \<and>
        channelID \<in> fetchedInactive (fst (run rc d s ops))"
    using assms(2)
  proof (induction ops arbitrary: s)
    case Nil
    then show ?case by (simp add: history_fetches_def)
  next
    case (Cons x xs)
    obtain s1 cs where st: "step rc d s x = (s1, cs)" by (cases "step rc d s x") auto
    from step_keeps_inactive [OF assms(1) st Cons.prems]
    have k: "channelID \<in> fetchedInactive s1" "history_fetches channelID cs = []" by simp_all
    from Cons.IH [OF k(1)] k(2) show ?case
      by (auto simp add: st split: prod.splits)
  qed
  then show ?thesis using assms(2) by (simp add: backfillState_def page_inactive)
qed

theorem inactive_channel_never_fetched_witness:
  "fetchedInactive
     (fst (run (ex_rest\<lparr>archived := \<lambda>c. True\<rparr>)
        (with_spec (ex_rest\<lparr>archived := \<lambda>c. True\<rparr>) ex_collab)
        (fst (newServer \<lparr>SiteURL = [], ServiceName = [], ServerHostedIn = []\<rparr>))
        [OpPage 3 0 True 25])) = {3} \<and>
   history_fetches 3
     (snd (run (ex_rest\<lparr>archived := \<lambda>c. True\<rparr>)
        (with_spec (ex_rest\<lparr>archived := \<lambda>c. True\<rparr>) ex_collab)
        (fst (run (ex_rest\<lparr>archived := \<lambda>c. True\<rparr>)
           (with_spec (ex_rest\<lparr>archived := \<lambda>c. True\<rparr>) ex_collab)
           (fst (newServer \<lparr>SiteURL = [], ServiceName = [], ServerHostedIn = []\<rparr>))
           [OpPage 3 0 True 25]))
        [OpGetPost (ex_request ''1'' ''2'' ''3'' [] ''10'' []),
         OpEvent (MessageCreateEvent (ex_message 13 7)),
         OpPage 3 12 False 25])) = []"
proof -
  let ?rc = "ex_rest\<lparr>archived := \<lambda>c. True\<rparr>"
  let ?d = "with_spec ?rc ex_collab"
  let ?s1 = "fst (run ?rc ?d
    (fst (newServer \<lparr>SiteURL = [], ServiceName = [], ServerHostedIn = []\<rparr>))
    [OpPage 3 0 True 25])"
  have inactive: "fetchedInactive ?s1 = {3}" unfolding ex_reach_inactive by simp
  then have "3 \<in> fetchedInactive ?s1" by simp
  from inactive_channel_never_fetched [OF spec_cache_with_spec this, where ops =
      "[OpGetPost (ex_request ''1'' ''2'' ''3'' [] ''10'' []),
        OpEvent (MessageCreateEvent (ex_message 13 7)), OpPage 3 12 False 25]"]
  have "history_fetches 3 (snd (run ?rc ?d ?s1
      [OpGetPost (ex_request ''1'' ''2'' ''3'' [] ''10'' []),
       OpEvent (MessageCreateEvent (ex_message 13 7)), OpPage 3 12 False 25])) = []"
    by (rule conjunct1)
  with inactive show ?thesis by (intro conjI)
qed

section \<open>The order of a page\<close>

text \<open>
  The upsert, the merge of fetched history and the removal keep a cached sequence
  strictly ascending, so every state the server reaches from \<open>newServer\<close> has ordered
  stores, and a window of an ordered store is ordered in both directions.
\<close>

lemma set_upsert: "set (upsert m xs) \<subseteq> insert m (set xs)"
  by (induction xs) auto

lemma upsert_ordered:
  "sorted_wrt (<) (map Message_ID xs) \<Longrightarrow> sorted_wrt (<) (map Message_ID (upsert m xs))"
proof (induction xs)
  case Nil
  then show ?case by simp
next
  case (Cons x xs)
  show ?case
  proof (cases "Message_ID m < Message_ID x")
    case True
    with Cons.prems show ?thesis by auto
  next
    case False
    show ?thesis
    proof (cases "Message_ID m = Message_ID x")
      case True
      with Cons.prems show ?thesis by auto
    next
      case neq: False
      with False have lt: "Message_ID x < Message_ID m" by simp
      have "\<forall>y \<in> set (upsert m xs). Message_ID x < Message_ID y"
        using set_upsert [of m xs] Cons.prems lt by auto
      with Cons False neq show ?thesis by simp
    qed
  qed
qed

lemma merge_ordered:
  "sorted_wrt (<) (map Message_ID xs) \<Longrightarrow> sorted_wrt (<) (map Message_ID (merge fetched xs))"
  by (induction fetched) (simp_all add: merge_def upsert_ordered)

lemma filter_ordered:
  "sorted_wrt (<) (map Message_ID xs) \<Longrightarrow> sorted_wrt (<) (map Message_ID (filter P xs))"
  by (simp add: sorted_wrt_map sorted_wrt_filter)

lemma window_ordered:
  assumes "sorted_wrt (<) (map Message_ID xs)"
  shows "sorted_wrt (<) (map Message_ID (fst (window xs cursor asc limit)))"
proof (cases asc)
  case True
  then show ?thesis
    using filter_ordered [OF assms, of "\<lambda>m. cursor = 0 \<or> cursor < Message_ID m"]
    by (simp add: window_def Let_def sorted_wrt_map)
next
  case False
  have "rev (take limit (rev ys)) = drop (length ys - limit) ys" for ys :: "discord_Message list"
    by (simp add: rev_take)
  with False show ?thesis
    using filter_ordered [OF assms, of "\<lambda>m. cursor = 0 \<or> Message_ID m < cursor"]
    by (simp add: window_def Let_def sorted_wrt_map)
qed

lemma store_ordered_newServer: "store_ordered (fst (newServer cfg))"
  by (simp add: store_ordered_def newServer_def newMessageCache_def)

lemma store_ordered_merged: "store_ordered s \<Longrightarrow> store_ordered (merged s ch fetched)"
  by (simp add: store_ordered_def merged_def merge_ordered)

lemma store_ordered_backfill:
  "store_ordered s \<Longrightarrow> backfill rc s ch cursor asc limit = (s1, cs, e) \<Longrightarrow> store_ordered s1"
  using store_ordered_merged [of s ch]
  by (auto simp add: backfill_def Let_def store_ordered_def
      split: if_splits sum.splits BackfillState.splits)

lemma page_ordered:
  assumes "store_ordered s" and "page rc s ch cursor asc limit = (s1, cs, msgs, hb, ha, e)"
  shows "store_ordered s1 \<and> sorted_wrt (<) (map Message_ID msgs)"
proof -
  obtain s1' cs' e' where b: "backfill rc s ch cursor asc limit = (s1', cs', e')"
    by (cases "backfill rc s ch cursor asc limit") auto
  from store_ordered_backfill [OF assms(1) b] have o: "store_ordered s1'" .
  then have "sorted_wrt (<) (map Message_ID (store (messageCache s1') ch))"
    by (simp add: store_ordered_def)
  from window_ordered [OF this, of cursor asc limit] o assms(2) show ?thesis
    by (auto simp add: page_def b split: option.splits prod.splits)
qed

lemma store_ordered_ensureMembers:
  "store_ordered s \<Longrightarrow> spec_ensureMembers rc s post msgs = (s1, cs, e) \<Longrightarrow> store_ordered s1"
  by (auto simp add: spec_ensureMembers_def Let_def store_ordered_def
      split: if_splits sum.splits)

lemma store_ordered_Set:
  "store_ordered s \<Longrightarrow> store_ordered (s\<lparr>messageCache := messageCache_Set m edited (messageCache s)\<rparr>)"
  by (simp add: store_ordered_def messageCache_Set_def upsert_ordered)

lemma store_ordered_Remove:
  "store_ordered s \<Longrightarrow> store_ordered (s\<lparr>messageCache := messageCache_Remove ch mid (messageCache s)\<rparr>)"
  by (simp add: store_ordered_def messageCache_Remove_def filter_ordered)

lemma store_ordered_handleEvent:
  "store_ordered s \<Longrightarrow> store_ordered (handleEvent registered s ev)"
  using store_ordered_Set [of s] store_ordered_Remove [of s]
  by (cases ev) (simp_all add: handleEvent_registered)

lemma getPost_store_ordered:
  assumes spec: "spec_cache rc d"
    and run: "getPost d s r = (out, s', cs)" and ordered: "store_ordered s"
  shows "store_ordered s'"
proof (rule getPost_keeps [OF run, where P = store_ordered])
  show "store_ordered s" by (rule ordered)
next
  fix post :: Channel and cur asc s1 c4 res
  assume "(if asc then MessagesAfter d s (Channel_ID post) cur 25
     else MessagesBefore d s (Channel_ID post) cur 25) = (s1, c4, res)"
  then have "page rc s (Channel_ID post) cur asc 25 =
      (s1, c4, fst res, fst (snd res), fst (snd (snd res)), snd (snd (snd res)))"
    by (simp add: spec_cache_page [OF spec])
  from page_ordered [OF ordered this] show "store_ordered s1" by simp
next
  fix s1 :: server and post msgs s2 c5 e
  assume "store_ordered s1" "ensureMembers d s1 post msgs = (s2, c5, e)"
  then show "store_ordered s2"
    using store_ordered_ensureMembers [of s1 rc post msgs s2 c5 e]
    by (simp add: spec_cache_ensureMembers [OF spec])
qed

lemma store_ordered_step:
  assumes "spec_cache rc d" and "step rc d s x = (s1, cs)" and "store_ordered s"
  shows "store_ordered s1"
proof (cases x)
  case (OpPage ch cursor asc limit)
  obtain s1' cs' msgs hb ha e where
    "page rc s ch cursor asc limit = (s1', cs', msgs, hb, ha, e)"
    by (metis prod_cases6)
  with page_ordered [OF assms(3) this] assms(2) OpPage show ?thesis by simp
next
  case (OpGetPost r)
  with assms(2,3) show ?thesis
    by (auto split: prod.splits dest: getPost_store_ordered [OF assms(1)])
next
  case (OpEvent ev)
  with assms(2,3) show ?thesis by (auto simp add: store_ordered_handleEvent)
qed

lemma store_ordered_run:
  assumes "spec_cache rc d"
  shows "store_ordered s \<Longrightarrow> store_ordered (fst (run rc d s ops))"
proof (induction ops arbitrary: s)
  case Nil
  then show ?case by simp
next
  case (Cons x xs)
  obtain s1 cs where st: "step rc d s x = (s1, cs)" by (cases "step rc d s x") auto
  from Cons.IH [OF store_ordered_step [OF assms st Cons.prems]] show ?case
    by (auto simp add: st split: prod.splits)
qed

lemma store_ordered_reachable:
  "spec_cache rc d \<Longrightarrow> store_ordered (fst (run rc d (fst (newServer cfg)) ops))"
  by (rule store_ordered_run [OF _ store_ordered_newServer])

lemma ex_store_ordered: "store_ordered ex_server"
  by (simp add: store_ordered_def ex_server_def ex_message_def)

text \<open>
  Claim C1. With the cache of the spec, in a server whose stores are ordered: whenever
  \<open>getPost\<close> renders a page (with an \<open>after\<close> cursor, a \<open>before\<close> cursor or none),
  the page the cache returned is strictly ascending by identifier, and the messages of
  the groups handed to the template, concatenated, are that page in the same order
  (each message rendered by \<open>s.message\<close> with the guild identifier set).
\<close>

theorem getPost_messages_ascending:
  assumes "spec_cache rc d" and "store_ordered s"
    and "getPost d s r = (ExecuteTemplate name ctx, s', cs)"
  shows "\<exists>(guild :: Guild) (post :: Channel) cur asc s1 c4 msgs hb ha.
     page rc s (Channel_ID post) cur asc 25 = (s1, c4, msgs, hb, ha, None) \<and>
     sorted_wrt (<) (map Message_ID msgs) \<and>
     concat (map Group_Messages (pctx_MessageGroups ctx)) =
       map (\<lambda>m. message d (m\<lparr>Message_GuildID := Guild_ID guild\<rparr>)) msgs"
proof (rule getPost_rendered [OF assms(3)])
  fix guild :: Guild and post :: Channel and cur asc s1 c4 msgs hb ha
  assume "(if asc then MessagesAfter d s (Channel_ID post) cur 25
      else MessagesBefore d s (Channel_ID post) cur 25) = (s1, c4, msgs, hb, ha, None)"
    and groups: "pctx_MessageGroups ctx =
      groupMessages (message d) (author d) (Guild_ID guild) msgs"
  then have pg: "page rc s (Channel_ID post) cur asc 25 = (s1, c4, msgs, hb, ha, None)"
    by (simp only: spec_cache_page [OF assms(1)])
  from page_ordered [OF assms(2) pg] have "sorted_wrt (<) (map Message_ID msgs)"
    by (rule conjunct2)
  moreover have "concat (map Group_Messages (pctx_MessageGroups ctx)) =
      map (\<lambda>m. message d (m\<lparr>Message_GuildID := Guild_ID guild\<rparr>)) msgs"
    unfolding groups by (rule groupMessages_concat)
  ultimately show ?thesis
    using pg by (intro exI conjI)
qed

theorem getPost_messages_ascending_witness:
  "sorted_wrt (<) [11, 12 :: nat] \<and> sorted_wrt (<) [10, 11 :: nat] \<and>
   (case fst (getPost ex_collab ex_server (ex_request ''1'' ''2'' ''3'' [] ''10'' [])) of
      ExecuteTemplate name ctx \<Rightarrow> concat (map Group_Messages (pctx_MessageGroups ctx))
    | _ \<Rightarrow> []) = [11, 12] \<and>
   (case fst (getPost ex_collab ex_server (ex_request ''1'' ''2'' ''3'' [] [] ''12'')) of
      ExecuteTemplate name ctx \<Rightarrow> concat (map Group_Messages (pctx_MessageGroups ctx))
    | _ \<Rightarrow> []) = [10, 11]"
proof -
  from getPost_messages_ascending [OF ex_spec_cache ex_store_ordered ex_getPost_after]
  have a: "sorted_wrt (<) [11, 12 :: nat]"
    by (auto simp add: ex_collab_def comp_def simp flip: map_map)
  from getPost_messages_ascending [OF ex_spec_cache ex_store_ordered ex_getPost_before]
  have b: "sorted_wrt (<) [10, 11 :: nat]"
    by (auto simp add: ex_collab_def comp_def)
  from a b show ?thesis by (simp add: ex_getPost_after ex_getPost_before)
qed

end
